theory Spec2Isabelle
  imports Complex_Main "HOL-Library.AList" "HOL-Library.Sublist"
begin

section \<open>Frontmatter values\<close>

text \<open>
  The metadata block of a content entry is parsed by the framework into a plain JavaScript
  object before the collection schema sees it.  \<open>val\<close> is the universe of such values:
  \<open>undefined\<close> (what reading an absent key yields), \<open>null\<close>, booleans, numbers (\<open>NaN\<close>
  apart, because the schema library reports it as its own parsed type; the payload of
  the other numbers is never inspected), strings, dates (a \<open>Date\<close> object, given by its
  time value in milliseconds; the frontmatter parser only builds valid dates), arrays
  and objects.  An object is an association list: key order is kept, and a key is read
  with \<open>map_of\<close>.
\<close>

datatype val =
    Undefined
  | Null
  | Bool bool
  | NaN
  | Num real
  | Str string
  | DateV int
  | Arr "val list"
  | Obj "(string \<times> val) list"

section \<open>The schema library, as far as the collection schemas use it\<close>

text \<open>
  The collection configuration module builds its two schemas from the combinators
  \<^verbatim>\<open>z.object\<close>, \<^verbatim>\<open>z.string\<close>, \<^verbatim>\<open>z.date\<close>, \<^verbatim>\<open>z.boolean\<close>, \<^verbatim>\<open>z.array\<close>, \<^verbatim>\<open>.url()\<close>,
  \<^verbatim>\<open>.optional()\<close>, \<^verbatim>\<open>.default(d)\<close> and \<^verbatim>\<open>.or(s)\<close>, which it imports from
  \<^verbatim>\<open>astro:content\<close> (the zod library).  The library itself is not part of the
  repository; a schema is embedded as a term of \<open>ZodType\<close>, and \<open>zparse\<close> below
  interprets it the way the library's \<^verbatim>\<open>_parse\<close> methods do.
\<close>

datatype ZodParsedType =
    T_string | T_nan | T_number | T_boolean | T_date
  | T_undefined | T_null | T_array | T_object

fun getParsedType :: "val \<Rightarrow> ZodParsedType" where
  "getParsedType Undefined = T_undefined"
| "getParsedType Null = T_null"
| "getParsedType (Bool b) = T_boolean"
| "getParsedType NaN = T_nan"
| "getParsedType (Num x) = T_number"
| "getParsedType (Str s) = T_string"
| "getParsedType (DateV t) = T_date"
| "getParsedType (Arr xs) = T_array"
| "getParsedType (Obj kvs) = T_object"

text \<open>The checks a string schema can carry; only \<^verbatim>\<open>{kind: "url"}\<close> occurs here.\<close>

datatype check = Url

datatype ZodType =
    ZodString "check list"
  | ZodDate
  | ZodBoolean
  | ZodArray ZodType
  | ZodObject "(string \<times> ZodType) list"
  | ZodOptional ZodType
  | ZodDefault ZodType val
  | ZodUnion "ZodType list"

definition z_string :: ZodType where
  "z_string = ZodString []"

definition z_date :: ZodType where
  "z_date = ZodDate"

definition z_boolean :: ZodType where
  "z_boolean = ZodBoolean"

definition z_array :: "ZodType \<Rightarrow> ZodType" where
  "z_array t = ZodArray t"

definition z_object :: "(string \<times> ZodType) list \<Rightarrow> ZodType" where
  "z_object shape = ZodObject shape"

text \<open>\<^verbatim>\<open>.url()\<close> exists on string schemas only; it appends the check.\<close>

fun url :: "ZodType \<Rightarrow> ZodType" where
  "url (ZodString checks) = ZodString (checks @ [Url])"
| "url t = t"

definition optional :: "ZodType \<Rightarrow> ZodType" where
  "optional t = ZodOptional t"

definition z_default :: "ZodType \<Rightarrow> val \<Rightarrow> ZodType" where
  "z_default t d = ZodDefault t d"

definition z_or :: "ZodType \<Rightarrow> ZodType \<Rightarrow> ZodType" where
  "z_or t u = ZodUnion [t, u]"

subsection \<open>Issues and parse results\<close>

text \<open>
  An issue carries the path of the value it is about (object keys and array indices)
  and its code: \<^verbatim>\<open>invalid_type\<close> with the expected and the received parsed type,
  \<^verbatim>\<open>invalid_string\<close> with the failed check, \<^verbatim>\<open>invalid_union\<close> with the issues of
  every option.
\<close>

datatype pkey = Key string | Idx nat

datatype issue =
    invalid_type (path: "pkey list") ZodParsedType ZodParsedType
  | invalid_string (path: "pkey list") check
  | invalid_union (path: "pkey list") "issue list list"

text \<open>
  A parser returns \<open>OK v\<close> (status \<^verbatim>\<open>valid\<close>), \<open>DIRTY v\<close> (a value, but an issue was
  recorded) or \<open>INVALID\<close> (status \<^verbatim>\<open>aborted\<close>), together with the issues it added.
\<close>

datatype ret = OK val | DIRTY val | INVALID

type_synonym result = "ret \<times> issue list"

fun is_dirty :: "ret \<Rightarrow> bool" where
  "is_dirty (DIRTY v) = True"
| "is_dirty r = False"

fun lookup :: "(string \<times> val) list \<Rightarrow> string \<Rightarrow> val" where
  "lookup kvs k = (case map_of kvs k of None \<Rightarrow> Undefined | Some v \<Rightarrow> v)"

text \<open>
  \<^verbatim>\<open>ParseStatus.mergeArray\<close>: the first aborted element aborts the array; otherwise
  the values are collected into a new array, dirty if any element was.
\<close>

fun mergeArray :: "bool \<Rightarrow> ret list \<Rightarrow> val list \<Rightarrow> ret" where
  "mergeArray dirty [] arrayValue =
     (if dirty then DIRTY (Arr arrayValue) else OK (Arr arrayValue))"
| "mergeArray dirty (INVALID # results) arrayValue = INVALID"
| "mergeArray dirty (DIRTY v # results) arrayValue =
     mergeArray True results (arrayValue @ [v])"
| "mergeArray dirty (OK v # results) arrayValue =
     mergeArray dirty results (arrayValue @ [v])"

text \<open>
  \<^verbatim>\<open>ParseStatus.mergeObjectSync\<close>: a pair is a key, the result of the key's schema
  and \<^verbatim>\<open>alwaysSet\<close> (\<^verbatim>\<open>key in data\<close>).  The key is assigned in the new object when
  its value is not \<open>undefined\<close> or the input had the key (\<open>assign\<close> is the body of
  that \<^verbatim>\<open>if\<close>).
\<close>

definition assign ::
  "string \<Rightarrow> val \<Rightarrow> bool \<Rightarrow> (string \<times> val) list \<Rightarrow> (string \<times> val) list" where
  "assign key v alwaysSet finalObject =
     (if key \<noteq> ''__proto__'' \<and> (v \<noteq> Undefined \<or> alwaysSet)
      then AList.update key v finalObject else finalObject)"

fun mergeObjectSync ::
  "bool \<Rightarrow> (string \<times> ret \<times> bool) list \<Rightarrow> (string \<times> val) list \<Rightarrow> ret" where
  "mergeObjectSync dirty [] finalObject =
     (if dirty then DIRTY (Obj finalObject) else OK (Obj finalObject))"
| "mergeObjectSync dirty ((key, INVALID, alwaysSet) # pairs) finalObject = INVALID"
| "mergeObjectSync dirty ((key, DIRTY v, alwaysSet) # pairs) finalObject =
     mergeObjectSync True pairs (assign key v alwaysSet finalObject)"
| "mergeObjectSync dirty ((key, OK v, alwaysSet) # pairs) finalObject =
     mergeObjectSync dirty pairs (assign key v alwaysSet finalObject)"

text \<open>
  The union's \<^verbatim>\<open>handleResults\<close>: the first valid option wins and none of the
  other options' issues is kept; failing that the first dirty option, with its
  issues; failing that one \<^verbatim>\<open>invalid_union\<close> issue holding every option's issues.
\<close>

fun is_valid :: "result \<Rightarrow> bool" where
  "is_valid (OK v, issues) = True"
| "is_valid r = False"

definition handleResults :: "pkey list \<Rightarrow> result list \<Rightarrow> result" where
  "handleResults p results =
     (case find is_valid results of
        Some r \<Rightarrow> (fst r, [])
      | None \<Rightarrow>
          (case find (\<lambda>r. is_dirty (fst r)) results of
             Some r \<Rightarrow> r
           | None \<Rightarrow> (INVALID, [invalid_union p (map snd results)])))"

text \<open>
  The string checks.  \<^verbatim>\<open>url\<close> runs the runtime's \<^verbatim>\<open>new URL(s)\<close> and records an
  issue when it throws; the runtime's URL parser is the parameter \<open>U\<close> (\<open>U s\<close>: the
  string parses as an absolute URL).
\<close>

fun run_check :: "(string \<Rightarrow> bool) \<Rightarrow> pkey list \<Rightarrow> string \<Rightarrow> check \<Rightarrow> issue list" where
  "run_check U p s Url = (if U s then [] else [invalid_string p Url])"

subsection \<open>The parser\<close>

text \<open>
  One equation for each \<^verbatim>\<open>_parse\<close> method, at the path \<open>p\<close> of the value.
  \<^item> A string schema rejects every value that is not a string; on a string it runs its
    checks, and a failed check leaves the value but makes the result dirty.
  \<^item> A date schema accepts a \<^verbatim>\<open>Date\<close> object (its second issue, for a \<^verbatim>\<open>Date\<close> whose
    time is \<^verbatim>\<open>NaN\<close>, cannot arise: \<open>val\<close> has valid dates only); a boolean schema
    accepts a boolean.
  \<^item> An array schema parses every element at its index and merges the results; the
    schemas here put no length constraint on an array.
  \<^item> An object schema parses, for each key of its shape in order, the value the input
    has for that key (\<open>undefined\<close> when it has none) and merges the results.
    Keys of the input that are not in the shape are never read: the schemas are built
    by \<^verbatim>\<open>z.object\<close> alone, whose policy for unknown keys is to strip them.
  \<^item> \<^verbatim>\<open>.optional()\<close> answers \<open>undefined\<close> for \<open>undefined\<close>, and \<^verbatim>\<open>.default(d)\<close>
    replaces \<open>undefined\<close> by \<open>d\<close> before the inner schema runs.
  \<^item> A union runs all its options on the value and picks among the results.
  Every issue a schema records is kept, so one record can fail with several issues.
  A key is read among the record's own keys (\<open>map_of\<close>); none of the keys that the
  schemas declare is one that every object inherits.
\<close>

fun zparse :: "(string \<Rightarrow> bool) \<Rightarrow> ZodType \<Rightarrow> pkey list \<Rightarrow> val \<Rightarrow> result" where
  "zparse U (ZodString checks) p v =
     (case v of
        Str s \<Rightarrow>
          (let issues = concat (map (run_check U p s) checks)
           in (if issues = [] then OK (Str s) else DIRTY (Str s), issues))
      | _ \<Rightarrow> (INVALID, [invalid_type p T_string (getParsedType v)]))"
| "zparse U ZodDate p v =
     (case v of
        DateV t \<Rightarrow> (OK (DateV t), [])
      | _ \<Rightarrow> (INVALID, [invalid_type p T_date (getParsedType v)]))"
| "zparse U ZodBoolean p v =
     (case v of
        Bool b \<Rightarrow> (OK (Bool b), [])
      | _ \<Rightarrow> (INVALID, [invalid_type p T_boolean (getParsedType v)]))"
| "zparse U (ZodArray t) p v =
     (case v of
        Arr xs \<Rightarrow>
          (let results = map (\<lambda>(i, x). zparse U t (p @ [Idx i]) x) (enumerate 0 xs)
           in (mergeArray False (map fst results) [], concat (map snd results)))
      | _ \<Rightarrow> (INVALID, [invalid_type p T_array (getParsedType v)]))"
| "zparse U (ZodObject shape) p v =
     (case v of
        Obj kvs \<Rightarrow>
          (let results = map (\<lambda>kt. (fst kt,
                                     zparse U (snd kt) (p @ [Key (fst kt)]) (lookup kvs (fst kt)),
                                     map_of kvs (fst kt) \<noteq> None)) shape
           in (mergeObjectSync False (map (\<lambda>(k, r, a). (k, fst r, a)) results) [],
               concat (map (\<lambda>(k, r, a). snd r) results)))
      | _ \<Rightarrow> (INVALID, [invalid_type p T_object (getParsedType v)]))"
| "zparse U (ZodOptional t) p v =
     (if getParsedType v = T_undefined then (OK Undefined, []) else zparse U t p v)"
| "zparse U (ZodDefault t d) p v =
     (if getParsedType v = T_undefined then zparse U t p d else zparse U t p v)"
| "zparse U (ZodUnion options) p v =
     handleResults p (map (\<lambda>t. zparse U t p v) options)"

text \<open>\<^verbatim>\<open>safeParse\<close>: success exactly when the status is valid, else the issues.\<close>

definition safeParse :: "(string \<Rightarrow> bool) \<Rightarrow> ZodType \<Rightarrow> val \<Rightarrow> issue list + val" where
  "safeParse U t v =
     (case zparse U t [] v of
        (OK v', issues) \<Rightarrow> Inr v'
      | (r, issues) \<Rightarrow> Inl issues)"

section \<open>The collections\<close>

record collection =
  type :: string
  schema :: ZodType

definition defineCollection :: "collection \<Rightarrow> collection" where
  "defineCollection config = config"

definition blog :: collection where
  "blog = defineCollection \<lparr>
     type = ''content'',
     schema = z_object [
       (''title'', z_string),
       (''description'', optional z_string),
       (''date'', z_or z_string z_date),
       (''tags'', z_default (z_array z_string) (Arr [])),
       (''project'', optional z_string),
       (''draft'', z_default z_boolean (Bool False))
     ] \<rparr>"

definition project :: collection where
  "project = defineCollection \<lparr>
     type = ''content'',
     schema = z_object [
       (''title'', z_string),
       (''description'', optional z_string),
       (''date'', z_or z_string z_date),
       (''url'', optional (url z_string)),
       (''repo'', optional (url z_string)),
       (''thumbnail'', optional z_string),
       (''tags'', z_default (z_array z_string) (Arr [])),
       (''draft'', z_default z_boolean (Bool False))
     ] \<rparr>"

definition collections :: "(string \<times> collection) list" where
  "collections = [(''blog'', blog), (''project'', project)]"

text \<open>
  Validation of one entry: the framework runs the collection's schema on the entry's
  metadata record; \<open>Inl\<close> is the failure that aborts the build.
\<close>

definition validate ::
  "(string \<Rightarrow> bool) \<Rightarrow> collection \<Rightarrow> (string \<times> val) list \<Rightarrow> issue list + val" where
  "validate U c r = safeParse U (schema c) (Obj r)"

text \<open>
  The earlier version of the configuration module: the same two collections, without
  the \<^verbatim>\<open>project\<close> field of a blog entry and the \<^verbatim>\<open>thumbnail\<close> field of a project.
\<close>

definition blog_earlier :: collection where
  "blog_earlier = defineCollection \<lparr>
     type = ''content'',
     schema = z_object [
       (''title'', z_string),
       (''description'', optional z_string),
       (''date'', z_or z_string z_date),
       (''tags'', z_default (z_array z_string) (Arr [])),
       (''draft'', z_default z_boolean (Bool False))
     ] \<rparr>"

definition project_earlier :: collection where
  "project_earlier = defineCollection \<lparr>
     type = ''content'',
     schema = z_object [
       (''title'', z_string),
       (''description'', optional z_string),
       (''date'', z_or z_string z_date),
       (''url'', optional (url z_string)),
       (''repo'', optional (url z_string)),
       (''tags'', z_default (z_array z_string) (Arr [])),
       (''draft'', z_default z_boolean (Bool False))
     ] \<rparr>"

text \<open>The keys a collection's schema declares.\<close>

fun shape_of :: "ZodType \<Rightarrow> (string \<times> ZodType) list" where
  "shape_of (ZodObject shape) = shape"
| "shape_of t = []"

definition declared_keys :: "collection \<Rightarrow> string list" where
  "declared_keys c = map fst (shape_of (schema c))"

section \<open>The error taxonomy\<close>

text \<open>
  Modelled from the spec: the names \<open>MissingRequiredField\<close>, \<open>TypeMismatch\<close> and
  \<open>MalformedURL\<close> of the specification's error taxonomy, which the schema library
  does not have (it reports issue codes).  A required key that is absent is reported
  as a type issue whose received type is \<open>undefined\<close>, for a union in every option;
  a failed \<^verbatim>\<open>url\<close> check is the malformed URL; every other issue is a type mismatch.
  The offending field is the issue's path.
\<close>

datatype SchemaValidationError = MissingRequiredField | TypeMismatch | MalformedURL

fun received_undefined :: "issue \<Rightarrow> bool" where
  "received_undefined (invalid_type p e r) = (r = T_undefined)"
| "received_undefined (invalid_string p c) = False"
| "received_undefined (invalid_union p unionErrors) =
     (unionErrors \<noteq> [] \<and>
      list_all (\<lambda>issues. issues \<noteq> [] \<and> list_all received_undefined issues) unionErrors)"

fun classify :: "issue \<Rightarrow> SchemaValidationError" where
  "classify (invalid_string p Url) = MalformedURL"
| "classify i = (if received_undefined i then MissingRequiredField else TypeMismatch)"

text \<open>An issue is about a field when its path starts with the field's key.\<close>

fun about :: "string \<Rightarrow> issue \<Rightarrow> bool" where
  "about k i = (case path i of Key k' # rest \<Rightarrow> k' = k | _ \<Rightarrow> False)"

section \<open>A URL recogniser for the examples\<close>

text \<open>
  The theorems hold for every URL parser \<open>U\<close>.  The closed examples need one: a string
  parses as an absolute URL only if it starts with a scheme (a letter, then letters,
  digits, \<open>+\<close>, \<open>-\<close> or \<open>.\<close>, then a colon), and \<open>has_scheme\<close> checks just that.
\<close>

definition is_alpha :: "char \<Rightarrow> bool" where
  "is_alpha c = (c \<in> set ''abcdefghijklmnopqrstuvwxyzABCDEFGHIJKLMNOPQRSTUVWXYZ'')"

definition is_scheme_char :: "char \<Rightarrow> bool" where
  "is_scheme_char c = (is_alpha c \<or> c \<in> set ''0123456789+-.'')"

fun scheme_rest :: "string \<Rightarrow> bool" where
  "scheme_rest [] = False"
| "scheme_rest (c # cs) =
     (if c = CHR '':'' then True else if is_scheme_char c then scheme_rest cs else False)"

fun has_scheme :: "string \<Rightarrow> bool" where
  "has_scheme [] = False"
| "has_scheme (c # cs) = (is_alpha c \<and> scheme_rest cs)"

section \<open>Querying a collection\<close>

text \<open>
  Modelled from the spec: the query operation of the content layer (section 4.1,
  \<^verbatim>\<open>Query(collectionName, predicate?)\<close>), which belongs to the framework and has no
  caller in the configuration module.  A store holds, for each collection name, its
  normalized entries in file-enumeration order; a query returns them, filtered by the
  predicate when one is given, and the caller does any sorting.
\<close>

record entry =
  entry_id :: string
  metadata :: val

type_synonym store = "(string \<times> entry list) list"

definition getAll :: "store \<Rightarrow> string \<Rightarrow> entry list" where
  "getAll st name = (case map_of st name of None \<Rightarrow> [] | Some entries \<Rightarrow> entries)"

definition query :: "store \<Rightarrow> string \<Rightarrow> (entry \<Rightarrow> bool) option \<Rightarrow> entry list" where
  "query st name predicate =
     (case predicate of
        None \<Rightarrow> getAll st name
      | Some f \<Rightarrow> filter f (getAll st name))"

text \<open>
  The predicate \<^verbatim>\<open>draft == false\<close> on a normalized entry, and the entries that have
  \<^verbatim>\<open>draft: true\<close>.
\<close>

definition not_draft :: "entry \<Rightarrow> bool" where
  "not_draft e = (case metadata e of Obj kvs \<Rightarrow> lookup kvs ''draft'' = Bool False | _ \<Rightarrow> False)"

definition draft_true :: "entry \<Rightarrow> bool" where
  "draft_true e = (case metadata e of Obj kvs \<Rightarrow> lookup kvs ''draft'' = Bool True | _ \<Rightarrow> False)"

text \<open>A store for the examples: five normalized blog entries, the second and fourth drafts.\<close>

definition post :: "string \<Rightarrow> bool \<Rightarrow> entry" where
  "post i d = \<lparr>entry_id = i,
     metadata = Obj [(''title'', Str i), (''date'', Str ''2026-01-15''),
                     (''tags'', Arr []), (''draft'', Bool d)]\<rparr>"

definition example_store :: store where
  "example_store = [(''blog'',
     [post ''a'' False, post ''b'' True, post ''c'' False, post ''d'' True, post ''e'' False])]"

section \<open>Object identity: the parser over a heap of arrays\<close>

text \<open>
  In the program an array is an object with an identity, and two records may hold the
  same array.  To speak about that, the parser is given a second time over values in
  which an array is a reference \<open>HArr a\<close> into a heap; the heap is a list of arrays,
  an address is an index into it, and a new array is appended.  Records are immutable
  once built, so the heap only grows.  \<open>hparse\<close> follows \<open>zparse\<close> equation by
  equation; the differences are that it reads the elements of an array from the
  heap, that \<^verbatim>\<open>mergeArray\<close> allocates the array it builds (\<^verbatim>\<open>const arrayValue = []\<close>),
  and that the heap is threaded through the element, key and option parsers
  (\<open>smap\<close>).  A schema in the heap (\<open>HZodType\<close>) holds its default value as
  evaluated when the module is loaded: \<^verbatim>\<open>.default([])\<close> keeps one array, and
  \<^verbatim>\<open>defaultValue()\<close> returns that same array at every call.  Only arrays are given
  an identity; dates and records stay values.
\<close>

datatype hval =
    HUndefined
  | HNull
  | HBool bool
  | HNaN
  | HNum real
  | HStr string
  | HDate int
  | HArr nat
  | HObj "(string \<times> hval) list"

type_synonym heap = "hval list list"

definition elems :: "heap \<Rightarrow> nat \<Rightarrow> hval list" where
  "elems h a = (if a < length h then h ! a else [])"

datatype HZodType =
    HZodString "check list"
  | HZodDate
  | HZodBoolean
  | HZodArray HZodType
  | HZodObject "(string \<times> HZodType) list"
  | HZodOptional HZodType
  | HZodDefault HZodType hval
  | HZodUnion "HZodType list"

datatype hret = HOK hval | HDIRTY hval | HINVALID

type_synonym hresult = "hret \<times> issue list"

fun hParsedType :: "hval \<Rightarrow> ZodParsedType" where
  "hParsedType HUndefined = T_undefined"
| "hParsedType HNull = T_null"
| "hParsedType (HBool b) = T_boolean"
| "hParsedType HNaN = T_nan"
| "hParsedType (HNum x) = T_number"
| "hParsedType (HStr s) = T_string"
| "hParsedType (HDate t) = T_date"
| "hParsedType (HArr a) = T_array"
| "hParsedType (HObj kvs) = T_object"

fun hlookup :: "(string \<times> hval) list \<Rightarrow> string \<Rightarrow> hval" where
  "hlookup kvs k = (case map_of kvs k of None \<Rightarrow> HUndefined | Some v \<Rightarrow> v)"

fun smap :: "('a \<Rightarrow> 's \<Rightarrow> 'b \<times> 's) \<Rightarrow> 'a list \<Rightarrow> 's \<Rightarrow> 'b list \<times> 's" where
  "smap f [] s = ([], s)"
| "smap f (x # xs) s =
     (case f x s of (y, s1) \<Rightarrow> (case smap f xs s1 of (ys, s2) \<Rightarrow> (y # ys, s2)))"

lemma smap_cong [fundef_cong]:
  "xs = ys \<Longrightarrow> (\<And>x s. x \<in> set ys \<Longrightarrow> f x s = g x s) \<Longrightarrow> smap f xs s = smap g ys s"
  by (induction ys arbitrary: xs s) (auto split: prod.splits)

fun hmergeArray :: "bool \<Rightarrow> hret list \<Rightarrow> hval list \<Rightarrow> heap \<Rightarrow> hret \<times> heap" where
  "hmergeArray dirty [] arrayValue h =
     (if dirty then HDIRTY (HArr (length h)) else HOK (HArr (length h)), h @ [arrayValue])"
| "hmergeArray dirty (HINVALID # results) arrayValue h = (HINVALID, h @ [arrayValue])"
| "hmergeArray dirty (HDIRTY v # results) arrayValue h =
     hmergeArray True results (arrayValue @ [v]) h"
| "hmergeArray dirty (HOK v # results) arrayValue h =
     hmergeArray dirty results (arrayValue @ [v]) h"

definition hassign ::
  "string \<Rightarrow> hval \<Rightarrow> bool \<Rightarrow> (string \<times> hval) list \<Rightarrow> (string \<times> hval) list" where
  "hassign key v alwaysSet finalObject =
     (if key \<noteq> ''__proto__'' \<and> (v \<noteq> HUndefined \<or> alwaysSet)
      then AList.update key v finalObject else finalObject)"

fun hmergeObjectSync ::
  "bool \<Rightarrow> (string \<times> hret \<times> bool) list \<Rightarrow> (string \<times> hval) list \<Rightarrow> hret" where
  "hmergeObjectSync dirty [] finalObject =
     (if dirty then HDIRTY (HObj finalObject) else HOK (HObj finalObject))"
| "hmergeObjectSync dirty ((key, HINVALID, alwaysSet) # pairs) finalObject = HINVALID"
| "hmergeObjectSync dirty ((key, HDIRTY v, alwaysSet) # pairs) finalObject =
     hmergeObjectSync True pairs (hassign key v alwaysSet finalObject)"
| "hmergeObjectSync dirty ((key, HOK v, alwaysSet) # pairs) finalObject =
     hmergeObjectSync dirty pairs (hassign key v alwaysSet finalObject)"

fun h_is_valid :: "hresult \<Rightarrow> bool" where
  "h_is_valid (HOK v, issues) = True"
| "h_is_valid r = False"

fun h_is_dirty :: "hret \<Rightarrow> bool" where
  "h_is_dirty (HDIRTY v) = True"
| "h_is_dirty r = False"

definition hhandleResults :: "pkey list \<Rightarrow> hresult list \<Rightarrow> hresult" where
  "hhandleResults p results =
     (case find h_is_valid results of
        Some r \<Rightarrow> (fst r, [])
      | None \<Rightarrow>
          (case find (\<lambda>r. h_is_dirty (fst r)) results of
             Some r \<Rightarrow> r
           | None \<Rightarrow> (HINVALID, [invalid_union p (map snd results)])))"

fun hparse ::
  "(string \<Rightarrow> bool) \<Rightarrow> HZodType \<Rightarrow> pkey list \<Rightarrow> hval \<Rightarrow> heap \<Rightarrow> hresult \<times> heap" where
  "hparse U (HZodString checks) p v h =
     (case v of
        HStr s \<Rightarrow>
          (let issues = concat (map (run_check U p s) checks)
           in ((if issues = [] then HOK (HStr s) else HDIRTY (HStr s), issues), h))
      | _ \<Rightarrow> ((HINVALID, [invalid_type p T_string (hParsedType v)]), h))"
| "hparse U HZodDate p v h =
     (case v of
        HDate t \<Rightarrow> ((HOK (HDate t), []), h)
      | _ \<Rightarrow> ((HINVALID, [invalid_type p T_date (hParsedType v)]), h))"
| "hparse U HZodBoolean p v h =
     (case v of
        HBool b \<Rightarrow> ((HOK (HBool b), []), h)
      | _ \<Rightarrow> ((HINVALID, [invalid_type p T_boolean (hParsedType v)]), h))"
| "hparse U (HZodArray t) p v h =
     (case v of
        HArr a \<Rightarrow>
          (case smap (\<lambda>ix. hparse U t (p @ [Idx (fst ix)]) (snd ix)) (enumerate 0 (elems h a)) h of
             (results, h1) \<Rightarrow>
               (case hmergeArray False (map fst results) [] h1 of
                  (r, h2) \<Rightarrow> ((r, concat (map snd results)), h2)))
      | _ \<Rightarrow> ((HINVALID, [invalid_type p T_array (hParsedType v)]), h))"
| "hparse U (HZodObject shape) p v h =
     (case v of
        HObj kvs \<Rightarrow>
          (case smap (\<lambda>kt. hparse U (snd kt) (p @ [Key (fst kt)]) (hlookup kvs (fst kt))) shape h of
             (results, h1) \<Rightarrow>
               ((hmergeObjectSync False
                   (map (\<lambda>(kt, r). (fst kt, fst r, map_of kvs (fst kt) \<noteq> None)) (zip shape results)) [],
                 concat (map snd results)), h1))
      | _ \<Rightarrow> ((HINVALID, [invalid_type p T_object (hParsedType v)]), h))"
| "hparse U (HZodOptional t) p v h =
     (if hParsedType v = T_undefined then ((HOK HUndefined, []), h) else hparse U t p v h)"
| "hparse U (HZodDefault t d) p v h =
     (if hParsedType v = T_undefined then hparse U t p d h else hparse U t p v h)"
| "hparse U (HZodUnion options) p v h =
     (case smap (\<lambda>t. hparse U t p v) options h of
        (results, h1) \<Rightarrow> (hhandleResults p results, h1))"

text \<open>
  The two parsers are tied together by relations: \<open>repr h hv v\<close> says that the heap
  value \<open>hv\<close> read in the heap \<open>h\<close> is the value \<open>v\<close>, \<open>orel\<close> is the same for
  the keys of a record, \<open>rrel\<close> and \<open>resrel\<close> for results, and \<open>srel h ht t\<close> says
  that \<open>ht\<close> is the schema \<open>t\<close> with its default values in the heap \<open>h\<close>.
\<close>

fun repr :: "heap \<Rightarrow> hval \<Rightarrow> val \<Rightarrow> bool" where
  "repr h hv Undefined = (hv = HUndefined)"
| "repr h hv Null = (hv = HNull)"
| "repr h hv (Bool b) = (hv = HBool b)"
| "repr h hv NaN = (hv = HNaN)"
| "repr h hv (Num x) = (hv = HNum x)"
| "repr h hv (Str s) = (hv = HStr s)"
| "repr h hv (DateV t) = (hv = HDate t)"
| "repr h hv (Arr vs) =
     (case hv of HArr a \<Rightarrow> a < length h \<and> list_all2 (repr h) (h ! a) vs | _ \<Rightarrow> False)"
| "repr h hv (Obj kvs) =
     (case hv of
        HObj hkvs \<Rightarrow>
          list_all2 (\<lambda>hkv kv. fst hkv = fst kv \<and> repr h (snd hkv) (snd kv)) hkvs kvs
      | _ \<Rightarrow> False)"

fun rrel :: "heap \<Rightarrow> hret \<Rightarrow> ret \<Rightarrow> bool" where
  "rrel h (HOK w) (OK v) = repr h w v"
| "rrel h (HDIRTY w) (DIRTY v) = repr h w v"
| "rrel h HINVALID INVALID = True"
| "rrel h hr r = False"

fun srel :: "heap \<Rightarrow> HZodType \<Rightarrow> ZodType \<Rightarrow> bool" where
  "srel h ht (ZodString checks) = (ht = HZodString checks)"
| "srel h ht ZodDate = (ht = HZodDate)"
| "srel h ht ZodBoolean = (ht = HZodBoolean)"
| "srel h ht (ZodArray t) = (case ht of HZodArray ht' \<Rightarrow> srel h ht' t | _ \<Rightarrow> False)"
| "srel h ht (ZodObject shape) =
     (case ht of
        HZodObject hshape \<Rightarrow>
          list_all2 (\<lambda>hkt kt. fst hkt = fst kt \<and> srel h (snd hkt) (snd kt)) hshape shape
      | _ \<Rightarrow> False)"
| "srel h ht (ZodOptional t) = (case ht of HZodOptional ht' \<Rightarrow> srel h ht' t | _ \<Rightarrow> False)"
| "srel h ht (ZodDefault t d) =
     (case ht of HZodDefault ht' d' \<Rightarrow> srel h ht' t \<and> repr h d' d | _ \<Rightarrow> False)"
| "srel h ht (ZodUnion options) =
     (case ht of HZodUnion hoptions \<Rightarrow> list_all2 (srel h) hoptions options | _ \<Rightarrow> False)"

definition orel :: "heap \<Rightarrow> (string \<times> hval) list \<Rightarrow> (string \<times> val) list \<Rightarrow> bool" where
  "orel h hkvs kvs = list_all2 (\<lambda>hkv kv. fst hkv = fst kv \<and> repr h (snd hkv) (snd kv)) hkvs kvs"

definition resrel :: "heap \<Rightarrow> hresult \<Rightarrow> result \<Rightarrow> bool" where
  "resrel h hres res = (snd hres = snd res \<and> rrel h (fst hres) (fst res))"

text \<open>
  The array references in a value or a result, and validation over the heap.  A result
  is \<open>fresh\<close> from \<open>h\<close> to \<open>h'\<close> when every array it refers to was allocated in
  between.
\<close>

fun refs :: "hval \<Rightarrow> nat set" where
  "refs (HArr a) = {a}"
| "refs (HObj kvs) = (\<Union>kv \<in> set kvs. refs (snd kv))"
| "refs v = {}"

fun ret_refs :: "hret \<Rightarrow> nat set" where
  "ret_refs (HOK w) = refs w"
| "ret_refs (HDIRTY w) = refs w"
| "ret_refs HINVALID = {}"

definition hsafeParse ::
  "(string \<Rightarrow> bool) \<Rightarrow> HZodType \<Rightarrow> hval \<Rightarrow> heap \<Rightarrow> (issue list + hval) \<times> heap" where
  "hsafeParse U t v h =
     (case hparse U t [] v h of
        ((HOK v', issues), h') \<Rightarrow> (Inr v', h')
      | ((r, issues), h') \<Rightarrow> (Inl issues, h'))"

definition hvalidate ::
  "(string \<Rightarrow> bool) \<Rightarrow> HZodType \<Rightarrow> (string \<times> hval) list \<Rightarrow> heap \<Rightarrow> (issue list + hval) \<times> heap" where
  "hvalidate U t r h = hsafeParse U t (HObj r) h"

definition orefs :: "(string \<times> hval) list \<Rightarrow> nat set" where
  "orefs kvs = (\<Union>kv \<in> set kvs. refs (snd kv))"

definition fresh :: "heap \<Rightarrow> heap \<Rightarrow> hresult \<Rightarrow> bool" where
  "fresh h h' y = (ret_refs (fst y) \<subseteq> {length h ..< length h'})"

text \<open>
  Loading the module: \<open>store\<close> evaluates a literal, allocating its arrays, and
  \<open>load\<close> evaluates a schema expression, storing each default literal once.
\<close>

fun store :: "val \<Rightarrow> heap \<Rightarrow> hval \<times> heap" where
  "store Undefined h = (HUndefined, h)"
| "store Null h = (HNull, h)"
| "store (Bool b) h = (HBool b, h)"
| "store NaN h = (HNaN, h)"
| "store (Num x) h = (HNum x, h)"
| "store (Str s) h = (HStr s, h)"
| "store (DateV t) h = (HDate t, h)"
| "store (Arr vs) h =
     (case smap store vs h of (hvs, h1) \<Rightarrow> (HArr (length h1), h1 @ [hvs]))"
| "store (Obj kvs) h =
     (case smap (\<lambda>kv. store (snd kv)) kvs h of (hvs, h1) \<Rightarrow> (HObj (zip (map fst kvs) hvs), h1))"

fun load :: "ZodType \<Rightarrow> heap \<Rightarrow> HZodType \<times> heap" where
  "load (ZodString checks) h = (HZodString checks, h)"
| "load ZodDate h = (HZodDate, h)"
| "load ZodBoolean h = (HZodBoolean, h)"
| "load (ZodArray t) h = (case load t h of (ht, h1) \<Rightarrow> (HZodArray ht, h1))"
| "load (ZodObject shape) h =
     (case smap (\<lambda>kt. load (snd kt)) shape h of
        (hts, h1) \<Rightarrow> (HZodObject (zip (map fst shape) hts), h1))"
| "load (ZodOptional t) h = (case load t h of (ht, h1) \<Rightarrow> (HZodOptional ht, h1))"
| "load (ZodDefault t d) h =
     (case load t h of (ht, h1) \<Rightarrow> (case store d h1 of (d', h2) \<Rightarrow> (HZodDefault ht d', h2)))"
| "load (ZodUnion options) h =
     (case smap load options h of (hts, h1) \<Rightarrow> (HZodUnion hts, h1))"

section \<open>Auxiliary functions for the proofs\<close>

text \<open>
  The value of a result, the result of one key of an object schema, the pairs handed to
  \<open>mergeObjectSync\<close>, and the object that the assignments build.
\<close>

fun the_val :: "ret \<Rightarrow> val" where
  "the_val (OK v) = v"
| "the_val (DIRTY v) = v"
| "the_val INVALID = Undefined"

definition field :: "(string \<Rightarrow> bool) \<Rightarrow> pkey list \<Rightarrow> (string \<times> val) list \<Rightarrow> string \<times> ZodType \<Rightarrow> result" where
  "field U p kvs kt = zparse U (snd kt) (p @ [Key (fst kt)]) (lookup kvs (fst kt))"

definition final :: "(string \<times> ret \<times> bool) list \<Rightarrow> (string \<times> val) list \<Rightarrow> (string \<times> val) list" where
  "final pairs acc = fold (\<lambda>x. assign (fst x) (the_val (fst (snd x))) (snd (snd x))) pairs acc"

definition pairs_of :: "(string \<Rightarrow> bool) \<Rightarrow> pkey list \<Rightarrow> (string \<times> val) list \<Rightarrow> (string \<times> ZodType) list \<Rightarrow> (string \<times> ret \<times> bool) list" where
  "pairs_of U p kvs shape = map (\<lambda>kt. (fst kt, fst (field U p kvs kt), map_of kvs (fst kt) \<noteq> None)) shape"

text \<open>
  Schemas whose accepted values are returned unchanged (\<open>plain\<close>), and schemas on which
  parsing a normalized value again changes nothing (\<open>stable\<close>): in a union every option
  is plain, and an object has distinct keys, none of them \<^verbatim>\<open>__proto__\<close>.
\<close>

fun plain :: "ZodType \<Rightarrow> bool" where
  "plain (ZodString checks) = True"
| "plain ZodDate = True"
| "plain ZodBoolean = True"
| "plain (ZodUnion options) = list_all plain options"
| "plain t = False"

fun stable :: "ZodType \<Rightarrow> bool" where
  "stable (ZodString checks) = True"
| "stable ZodDate = True"
| "stable ZodBoolean = True"
| "stable (ZodArray t) = stable t"
| "stable (ZodObject shape) =
     (distinct (map fst shape) \<and> ''__proto__'' \<notin> set (map fst shape) \<and>
      list_all (\<lambda>kt. stable (snd kt)) shape)"
| "stable (ZodOptional t) = stable t"
| "stable (ZodDefault t d) = stable t"
| "stable (ZodUnion options) = list_all plain options"

section \<open>Basic facts about the parser\<close>

lemma mergeArray_OK_D:
  "mergeArray d rs acc = OK w \<Longrightarrow> \<not> d \<and> (\<forall>r \<in> set rs. \<exists>v. r = OK v)"
  by (induction d rs acc rule: mergeArray.induct) (auto split: if_splits)

lemma mergeObjectSync_OK_D:
  "mergeObjectSync d pairs acc = OK w \<Longrightarrow> \<not> d \<and> (\<forall>x \<in> set pairs. \<exists>v. fst (snd x) = OK v)"
  by (induction d pairs acc rule: mergeObjectSync.induct) (auto split: if_splits)

lemma find_Some_D: "find P rs = Some r \<Longrightarrow> r \<in> set rs \<and> P r"
  by (induction rs) (auto split: if_splits)

lemma is_valid_iff: "is_valid r \<longleftrightarrow> (\<exists>v. fst r = OK v)"
  by (cases r rule: is_valid.cases) auto

lemma zparse_Arr:
  "zparse U (ZodArray t) p (Arr xs) =
     (mergeArray False (map (\<lambda>ix. fst (zparse U t (p @ [Idx (fst ix)]) (snd ix))) (enumerate 0 xs)) [],
      concat (map (\<lambda>ix. snd (zparse U t (p @ [Idx (fst ix)]) (snd ix))) (enumerate 0 xs)))"
  by (simp add: Let_def comp_def case_prod_unfold)

lemma zparse_Obj:
  "zparse U (ZodObject shape) p (Obj kvs) =
     (mergeObjectSync False (pairs_of U p kvs shape) [],
      concat (map (\<lambda>kt. snd (field U p kvs kt)) shape))"
  by (simp add: Let_def comp_def case_prod_unfold pairs_of_def field_def del: lookup.simps)

lemma zparse_not_Arr:
  "(\<And>xs. v \<noteq> Arr xs) \<Longrightarrow>
   zparse U (ZodArray t) p v = (INVALID, [invalid_type p T_array (getParsedType v)])"
  by (cases v) auto

lemma zparse_not_Obj:
  "(\<And>xs. v \<noteq> Obj xs) \<Longrightarrow>
   zparse U (ZodObject t) p v = (INVALID, [invalid_type p T_object (getParsedType v)])"
  by (cases v) auto

declare zparse.simps(4,5) [simp del]

declare lookup.simps [simp del]

lemma mergeObjectSync_all_OK:
  "\<forall>x \<in> set pairs. \<exists>v. fst (snd x) = OK v \<Longrightarrow>
   mergeObjectSync False pairs acc = OK (Obj (final pairs acc))"
proof (induction pairs arbitrary: acc)
  case Nil
  then show ?case by (simp add: final_def)
next
  case (Cons x pairs)
  obtain k r a where x: "x = (k, r, a)" by (cases x)
  from Cons.prems x obtain v where r: "r = OK v" by auto
  from Cons.prems have "\<forall>x \<in> set pairs. \<exists>v. fst (snd x) = OK v" by simp
  from Cons.IH[OF this] show ?case by (simp add: x r final_def)
qed

lemma mergeObjectSync_OK_iff:
  "mergeObjectSync False pairs acc = OK w \<longleftrightarrow>
   (\<forall>x \<in> set pairs. \<exists>v. fst (snd x) = OK v) \<and> w = Obj (final pairs acc)"
  using mergeObjectSync_all_OK mergeObjectSync_OK_D by (metis ret.inject(1))

lemma zparse_Obj_OK_iff:
  "fst (zparse U (ZodObject shape) p (Obj kvs)) = OK w \<longleftrightarrow>
   (\<forall>kt \<in> set shape. \<exists>v. fst (field U p kvs kt) = OK v) \<and>
   w = Obj (final (pairs_of U p kvs shape) [])"
  unfolding zparse_Obj fst_conv mergeObjectSync_OK_iff by (simp add: pairs_of_def)


lemma map_of_assign:
  "map_of (assign k v a acc) k' =
     (if k' = k \<and> k \<noteq> ''__proto__'' \<and> (v \<noteq> Undefined \<or> a) then Some v else map_of acc k')"
  by (auto simp: assign_def update_conv')

lemma map_of_final_notin:
  "k \<notin> fst ` set pairs \<Longrightarrow> map_of (final pairs acc) k = map_of acc k"
  unfolding final_def
  by (induction pairs arbitrary: acc) (auto simp: map_of_assign)

lemma map_of_final_in:
  "distinct (map fst pairs) \<Longrightarrow> (k, r, a) \<in> set pairs \<Longrightarrow>
   map_of (final pairs acc) k =
     (if k \<noteq> ''__proto__'' \<and> (the_val r \<noteq> Undefined \<or> a) then Some (the_val r)
      else map_of acc k)"
proof (induction pairs arbitrary: acc)
  case Nil
  then show ?case by simp
next
  case (Cons x pairs)
  have step: "final (x # pairs) acc = final pairs (assign (fst x) (the_val (fst (snd x))) (snd (snd x)) acc)"
    by (simp add: final_def)
  show ?case
  proof (cases "x = (k, r, a)")
    case True
    with Cons.prems have "k \<notin> fst ` set pairs" by auto
    from map_of_final_notin[OF this] show ?thesis
      unfolding step by (simp add: True map_of_assign)
  next
    case False
    with Cons.prems have in_rest: "(k, r, a) \<in> set pairs" and d: "distinct (map fst pairs)"
      by auto
    from in_rest have "k \<in> fst ` set pairs" by force
    with Cons.prems(1) have "fst x \<noteq> k" by auto
    with Cons.IH[OF d in_rest] show ?thesis
      unfolding step by (simp add: map_of_assign)
  qed
qed

lemma keys_assign: "fst ` set (assign k v a acc) \<subseteq> insert k (fst ` set acc)"
  by (auto simp: assign_def dom_map_of_conv_image_fst[symmetric] update_conv' split: if_splits)

lemma keys_final: "fst ` set (final pairs acc) \<subseteq> fst ` set pairs \<union> fst ` set acc"
  unfolding final_def
proof (induction pairs arbitrary: acc)
  case Nil
  then show ?case by simp
next
  case (Cons x pairs)
  from Cons.IH[of "assign (fst x) (the_val (fst (snd x))) (snd (snd x)) acc"]
    keys_assign[of "fst x" "the_val (fst (snd x))" "snd (snd x)" acc]
  show ?case by auto
qed

lemma distinct_assign: "distinct (map fst acc) \<Longrightarrow> distinct (map fst (assign k v a acc))"
  by (simp add: assign_def distinct_update)

lemma fst_pairs_of [simp]: "map fst (pairs_of U p kvs shape) = map fst shape"
  by (simp add: pairs_of_def comp_def)

section \<open>Where issues come from\<close>

lemma zparse_Obj_issues:
  "set (snd (zparse U (ZodObject shape) p (Obj kvs))) = (\<Union>kt \<in> set shape. set (snd (field U p kvs kt)))"
  unfolding zparse_Obj by simp

lemma handleResults_issues:
  "i \<in> set (snd (handleResults p rs)) \<Longrightarrow>
   path i = p \<or> (\<exists>r \<in> set rs. i \<in> set (snd r))"
  by (auto simp: handleResults_def split: option.splits dest!: find_Some_D)

lemma run_check_path: "i \<in> set (run_check U p s c) \<Longrightarrow> path i = p"
  by (cases c) (auto split: if_splits)

lemma zparse_path:
  "i \<in> set (snd (zparse U t p v)) \<Longrightarrow> \<exists>rest. path i = p @ rest"
proof (induction U t p v rule: zparse.induct)
  case (1 U checks p v)
  then show ?case
    by (cases v) (auto simp: Let_def dest: run_check_path)
next
  case (2 U p v)
  then show ?case by (cases v) auto
next
  case (3 U p v)
  then show ?case by (cases v) auto
next
  case (4 U t p v)
  show ?case
  proof (cases "\<exists>xs. v = Arr xs")
    case True
    then obtain xs where Arr: "v = Arr xs" by blast
    from "4.prems" obtain ix where ix: "ix \<in> set (enumerate 0 xs)"
      and i: "i \<in> set (snd (zparse U t (p @ [Idx (fst ix)]) (snd ix)))"
      unfolding Arr zparse_Arr by (auto simp del: in_set_enumerate_eq)
    from "4.IH"[OF Arr, of ix "fst ix" "snd ix"] ix i show ?thesis by auto
  next
    case False
    then have "\<And>xs. v \<noteq> Arr xs" by blast
    from zparse_not_Arr[OF this] "4.prems" show ?thesis by (simp del: zparse.simps)
  qed
next
  case (5 U shape p v)
  show ?case
  proof (cases "\<exists>xs. v = Obj xs")
    case True
    then obtain kvs where Obj: "v = Obj kvs" by blast
    from "5.prems" obtain kt where kt: "kt \<in> set shape"
      and i: "i \<in> set (snd (field U p kvs kt))"
      unfolding Obj zparse_Obj_issues by auto
    from "5.IH"[OF Obj kt] i show ?thesis by (auto simp: field_def simp del: lookup.simps)
  next
    case False
    then have "\<And>xs. v \<noteq> Obj xs" by blast
    from zparse_not_Obj[OF this] "5.prems" show ?thesis by (simp del: zparse.simps)
  qed
next
  case (6 U t p v)
  then show ?case by (auto split: if_splits)
next
  case (7 U t d p v)
  then show ?case by (auto split: if_splits)
next
  case (8 U options p v)
  from handleResults_issues[of i p "map (\<lambda>t. zparse U t p v) options"] "8.prems"
  have "path i = p \<or> (\<exists>t \<in> set options. i \<in> set (snd (zparse U t p v)))" by auto
  with "8.IH" show ?case by auto
qed

lemma field_issue_about:
  "i \<in> set (snd (field U [] kvs kt)) \<Longrightarrow> about k i \<longleftrightarrow> k = fst kt"
  using zparse_path[of i U "snd kt" "[Key (fst kt)]" "lookup kvs (fst kt)"]
  by (auto simp: field_def simp del: lookup.simps)

section \<open>Validation of a record against an object schema\<close>

lemma safeParse_Inr_iff: "safeParse U t v = Inr w \<longleftrightarrow> fst (zparse U t [] v) = OK w"
  by (auto simp: safeParse_def split: prod.splits ret.splits)

lemma safeParse_Inl_iff:
  "safeParse U t v = Inl is \<longleftrightarrow> (\<forall>w. fst (zparse U t [] v) \<noteq> OK w) \<and> is = snd (zparse U t [] v)"
  by (auto simp: safeParse_def split: prod.splits ret.splits)

section \<open>The shapes of the four schemas\<close>

lemma schema_blog:
  "schema blog = ZodObject [
     (''title'', ZodString []),
     (''description'', ZodOptional (ZodString [])),
     (''date'', ZodUnion [ZodString [], ZodDate]),
     (''tags'', ZodDefault (ZodArray (ZodString [])) (Arr [])),
     (''project'', ZodOptional (ZodString [])),
     (''draft'', ZodDefault ZodBoolean (Bool False))]"
  by (simp add: blog_def defineCollection_def z_object_def z_string_def optional_def z_or_def
      z_date_def z_default_def z_array_def z_boolean_def)

lemma schema_project:
  "schema project = ZodObject [
     (''title'', ZodString []),
     (''description'', ZodOptional (ZodString [])),
     (''date'', ZodUnion [ZodString [], ZodDate]),
     (''url'', ZodOptional (ZodString [Url])),
     (''repo'', ZodOptional (ZodString [Url])),
     (''thumbnail'', ZodOptional (ZodString [])),
     (''tags'', ZodDefault (ZodArray (ZodString [])) (Arr [])),
     (''draft'', ZodDefault ZodBoolean (Bool False))]"
  by (simp add: project_def defineCollection_def z_object_def z_string_def optional_def z_or_def
      z_date_def z_default_def z_array_def z_boolean_def)

lemma schema_blog_earlier:
  "schema blog_earlier = ZodObject [
     (''title'', ZodString []),
     (''description'', ZodOptional (ZodString [])),
     (''date'', ZodUnion [ZodString [], ZodDate]),
     (''tags'', ZodDefault (ZodArray (ZodString [])) (Arr [])),
     (''draft'', ZodDefault ZodBoolean (Bool False))]"
  by (simp add: blog_earlier_def defineCollection_def z_object_def z_string_def optional_def
      z_or_def z_date_def z_default_def z_array_def z_boolean_def)

lemma schema_project_earlier:
  "schema project_earlier = ZodObject [
     (''title'', ZodString []),
     (''description'', ZodOptional (ZodString [])),
     (''date'', ZodUnion [ZodString [], ZodDate]),
     (''url'', ZodOptional (ZodString [Url])),
     (''repo'', ZodOptional (ZodString [Url])),
     (''tags'', ZodDefault (ZodArray (ZodString [])) (Arr [])),
     (''draft'', ZodDefault ZodBoolean (Bool False))]"
  by (simp add: project_earlier_def defineCollection_def z_object_def z_string_def optional_def
      z_or_def z_date_def z_default_def z_array_def z_boolean_def)

lemmas schemas = schema_blog schema_project schema_blog_earlier schema_project_earlier

section \<open>Failure of one key fails the record\<close>

lemma validate_field_fails:
  assumes "schema c = ZodObject shape" and "kt \<in> set shape"
    and "\<forall>v. fst (field U [] r kt) \<noteq> OK v"
  shows "\<exists>is. validate U c r = Inl is \<and> set (snd (field U [] r kt)) \<subseteq> set is"
proof -
  have "\<forall>w. fst (zparse U (ZodObject shape) [] (Obj r)) \<noteq> OK w"
    using assms(2,3) by (auto simp: zparse_Obj_OK_iff)
  then have "validate U c r = Inl (snd (zparse U (ZodObject shape) [] (Obj r)))"
    by (simp add: validate_def assms(1) safeParse_Inl_iff)
  moreover have "set (snd (field U [] r kt)) \<subseteq> set (snd (zparse U (ZodObject shape) [] (Obj r)))"
    using assms(2) unfolding zparse_Obj_issues by blast
  ultimately show ?thesis by blast
qed

lemma field_string_missing:
  "lookup r k = Undefined \<Longrightarrow>
   field U [] r (k, ZodString []) = (INVALID, [invalid_type [Key k] T_string T_undefined])"
  by (simp add: field_def)

lemma field_date_missing:
  "lookup r k = Undefined \<Longrightarrow>
   field U [] r (k, ZodUnion [ZodString [], ZodDate]) =
     (INVALID, [invalid_union [Key k]
        [[invalid_type [Key k] T_string T_undefined], [invalid_type [Key k] T_date T_undefined]]])"
  by (simp add: field_def handleResults_def)

section \<open>Success of a record, key by key\<close>

lemma validate_Inr_iff:
  assumes "schema c = ZodObject shape"
  shows "validate U c r = Inr w \<longleftrightarrow>
     (\<forall>kt \<in> set shape. \<exists>v. fst (field U [] r kt) = OK v) \<and>
     w = Obj (final (pairs_of U [] r shape) [])"
  by (simp add: validate_def assms safeParse_Inr_iff zparse_Obj_OK_iff)

lemma validate_Inl_issues:
  assumes "schema c = ZodObject shape" and "validate U c r = Inl is"
  shows "set is = (\<Union>kt \<in> set shape. set (snd (field U [] r kt)))"
  using assms by (simp add: validate_def safeParse_Inl_iff zparse_Obj_issues)

lemma output_field:
  assumes "schema c = ZodObject shape" and "distinct (map fst shape)"
    and "validate U c r = Inr w" and "(k, t) \<in> set shape" and "k \<noteq> ''__proto__''"
  shows "\<exists>out v. w = Obj out \<and> fst (field U [] r (k, t)) = OK v \<and>
           map_of out k = (if v \<noteq> Undefined \<or> map_of r k \<noteq> None then Some v else None)"
proof -
  from assms(1,3) have ok: "\<forall>kt \<in> set shape. \<exists>v. fst (field U [] r kt) = OK v"
    and w: "w = Obj (final (pairs_of U [] r shape) [])"
    by (simp_all add: validate_Inr_iff)
  from ok assms(4) obtain v where v: "fst (field U [] r (k, t)) = OK v" by blast
  have "(k, fst (field U [] r (k, t)), map_of r k \<noteq> None) \<in> set (pairs_of U [] r shape)"
    using assms(4) by (force simp: pairs_of_def)
  from map_of_final_in[OF _ this, of "[]"] assms(2,5) v
  have "map_of (final (pairs_of U [] r shape) []) k =
          (if v \<noteq> Undefined \<or> map_of r k \<noteq> None then Some v else None)"
    by simp
  with w v show ?thesis by blast
qed

lemma output_keys:
  assumes "schema c = ZodObject shape" and "validate U c r = Inr w"
  shows "\<exists>out. w = Obj out \<and> fst ` set out \<subseteq> fst ` set shape"
proof -
  from assms have w: "w = Obj (final (pairs_of U [] r shape) [])"
    by (simp add: validate_Inr_iff)
  have "fst ` set (pairs_of U [] r shape) = fst ` set shape"
    by (simp add: pairs_of_def image_image)
  with keys_final[of "pairs_of U [] r shape" "[]"] w show ?thesis by auto
qed

lemma issue_about_key:
  assumes "schema c = ZodObject shape"
    and "validate U c r = Inl is" and "i \<in> set is" and "about k i"
  shows "\<exists>t. (k, t) \<in> set shape \<and> i \<in> set (snd (field U [] r (k, t)))"
proof -
  from validate_Inl_issues[OF assms(1,2)] assms(3)
  obtain kt where kt: "kt \<in> set shape" and i: "i \<in> set (snd (field U [] r kt))" by auto
  from field_issue_about[OF i, of k] assms(4) have "k = fst kt" by simp
  then have "kt = (k, snd kt)" by simp
  with kt i show ?thesis by metis
qed

lemma shape_of_schema:
  "c = blog \<or> c = project \<or> c = blog_earlier \<or> c = project_earlier \<Longrightarrow>
   schema c = ZodObject (shape_of (schema c))"
  by (auto simp: schemas)

lemma distinct_fields:
  "c = blog \<or> c = project \<or> c = blog_earlier \<or> c = project_earlier \<Longrightarrow>
   distinct (map fst (shape_of (schema c)))"
  by (auto simp: schemas)

lemma output_field_value:
  assumes "schema c = ZodObject shape" and "distinct (map fst shape)"
    and "validate U c r = Inr w" and "(k, t) \<in> set shape" and "k \<noteq> ''__proto__''"
    and "field U [] r (k, t) = (OK v, is)" and "v \<noteq> Undefined"
  shows "\<exists>out. w = Obj out \<and> map_of out k = Some v"
proof -
  from output_field[OF assms(1-5)] obtain out v' where w: "w = Obj out"
    and v': "fst (field U [] r (k, t)) = OK v'"
    and m: "map_of out k = (if v' \<noteq> Undefined \<or> map_of r k \<noteq> None then Some v' else None)"
    by blast
  from v' assms(6) have "v' = v" by simp
  with m assms(7) have "map_of out k = Some v" by simp
  with w show ?thesis by blast
qed

section \<open>A key whose value is accepted\<close>

lemma accepted_field:
  assumes "schema c = ZodObject shape" and "distinct (map fst shape)"
    and "(k, t) \<in> set shape" and "k \<noteq> ''__proto__''"
    and "field U [] r (k, t) = (OK v, [])" and "v \<noteq> Undefined"
  shows "(\<forall>is. validate U c r = Inl is \<longrightarrow> (\<forall>i \<in> set is. \<not> about k i)) \<and>
         (\<forall>out. validate U c r = Inr (Obj out) \<longrightarrow> map_of out k = Some v)"
proof -
  have "\<not> about k i" if "validate U c r = Inl is" and "i \<in> set is" for "is" i
  proof
    assume "about k i"
    from issue_about_key[OF assms(1) that this]
    obtain t' where t': "(k, t') \<in> set shape" and i: "i \<in> set (snd (field U [] r (k, t')))"
      by blast
    from eq_key_imp_eq_value[OF assms(2) t' assms(3)] have "t' = t" .
    with i assms(5) show False by simp
  qed
  moreover have "map_of out k = Some v" if "validate U c r = Inr (Obj out)" for out
    using output_field_value[OF assms(1,2) that assms(3,4,5,6)] by simp
  ultimately show ?thesis by blast
qed

section \<open>Keys the schema does not declare\<close>

lemma zparse_Obj_agree:
  assumes "\<forall>k \<in> fst ` set shape. map_of kvs' k = map_of kvs k"
  shows "zparse U (ZodObject shape) p (Obj kvs') = zparse U (ZodObject shape) p (Obj kvs)"
proof -
  have "field U p kvs' kt = field U p kvs kt" if "kt \<in> set shape" for kt
    using assms that by (simp add: field_def lookup.simps)
  moreover have "(map_of kvs' (fst kt) \<noteq> None) = (map_of kvs (fst kt) \<noteq> None)"
    if "kt \<in> set shape" for kt
    using assms that by simp
  ultimately show ?thesis
    unfolding zparse_Obj pairs_of_def by (simp cong: map_cong)
qed

lemma validate_agree:
  assumes "schema c = ZodObject shape"
    and "\<forall>k \<in> set (declared_keys c). map_of r' k = map_of r k"
  shows "validate U c r' = validate U c r"
  using assms zparse_Obj_agree[of shape r' r U "[]"]
  by (simp add: validate_def safeParse_def declared_keys_def)

section \<open>The results of single keys\<close>

lemma field_url:
  "lookup r k = Str s \<Longrightarrow>
   field U [] r (k, ZodOptional (ZodString [Url])) =
     (if U s then (OK (Str s), []) else (DIRTY (Str s), [invalid_string [Key k] Url]))"
  by (simp add: field_def)

lemma field_tags_default:
  "lookup r k = Undefined \<Longrightarrow>
   field U [] r (k, ZodDefault (ZodArray (ZodString [])) (Arr [])) = (OK (Arr []), [])"
  by (simp add: field_def zparse_Arr)

lemma field_draft_default:
  "lookup r k = Undefined \<Longrightarrow>
   field U [] r (k, ZodDefault ZodBoolean (Bool False)) = (OK (Bool False), [])"
  by (simp add: field_def)

lemma field_date_ok:
  "lookup r k = Str s \<or> lookup r k = DateV t \<Longrightarrow>
   field U [] r (k, ZodUnion [ZodString [], ZodDate]) = (OK (lookup r k), [])"
  by (auto simp: field_def handleResults_def)

lemma field_date_other:
  "\<forall>s. lookup r k \<noteq> Str s \<Longrightarrow> \<forall>t. lookup r k \<noteq> DateV t \<Longrightarrow>
   field U [] r (k, ZodUnion [ZodString [], ZodDate]) =
     (INVALID, [invalid_union [Key k]
        [[invalid_type [Key k] T_string (getParsedType (lookup r k))],
         [invalid_type [Key k] T_date (getParsedType (lookup r k))]]])"
  by (cases "lookup r k") (auto simp: field_def handleResults_def)

section \<open>Parsing a normalized value again\<close>

lemma zparse_Arr_OK_D:
  assumes "fst (zparse U (ZodArray t) p (Arr xs)) = OK w" and "ix \<in> set (enumerate 0 xs)"
  shows "\<exists>v. fst (zparse U t (p @ [Idx (fst ix)]) (snd ix)) = OK v"
proof -
  from assms(1) have "\<forall>r \<in> set (map (\<lambda>ix. fst (zparse U t (p @ [Idx (fst ix)]) (snd ix)))
      (enumerate 0 xs)). \<exists>v. r = OK v"
    unfolding zparse_Arr fst_conv by (rule mergeArray_OK_D[THEN conjunct2])
  with assms(2) show ?thesis by (simp del: in_set_enumerate_eq)
qed

lemma zparse_OK_no_issues:
  "fst (zparse U t p v) = OK w \<Longrightarrow> snd (zparse U t p v) = []"
proof (induction U t p v arbitrary: w rule: zparse.induct)
  case (1 U checks p v)
  then show ?case by (auto split: val.splits if_splits simp: Let_def)
next
  case (2 U p v)
  then show ?case by (auto split: val.splits)
next
  case (3 U p v)
  then show ?case by (auto split: val.splits)
next
  case (4 U t p v)
  show ?case
  proof (cases "\<exists>xs. v = Arr xs")
    case True
    then obtain xs where Arr: "v = Arr xs" by blast
    have "snd (zparse U t (p @ [Idx (fst ix)]) (snd ix)) = []" if "ix \<in> set (enumerate 0 xs)" for ix
    proof -
      from zparse_Arr_OK_D[OF "4.prems"[unfolded Arr] that]
      obtain v where "fst (zparse U t (p @ [Idx (fst ix)]) (snd ix)) = OK v" by auto
      with "4.IH"[OF Arr, of ix "fst ix" "snd ix"] that show ?thesis by simp
    qed
    then show ?thesis unfolding Arr zparse_Arr by simp
  next
    case False
    then have "\<And>xs. v \<noteq> Arr xs" by blast
    from zparse_not_Arr[OF this] "4.prems" show ?thesis by simp
  qed
next
  case (5 U shape p v)
  show ?case
  proof (cases "\<exists>xs. v = Obj xs")
    case True
    then obtain kvs where Obj: "v = Obj kvs" by blast
    have "snd (field U p kvs kt) = []" if "kt \<in> set shape" for kt
    proof -
      from "5.prems" Obj that obtain v where "fst (field U p kvs kt) = OK v"
        by (auto simp: zparse_Obj_OK_iff)
      with "5.IH"[OF Obj that] show ?thesis by (simp add: field_def)
    qed
    then show ?thesis unfolding Obj zparse_Obj by simp
  next
    case False
    then have "\<And>xs. v \<noteq> Obj xs" by blast
    from zparse_not_Obj[OF this] "5.prems" show ?thesis by simp
  qed
next
  case (6 U t p v)
  then show ?case by (auto split: if_splits)
next
  case (7 U t d p v)
  then show ?case by (auto split: if_splits)
next
  case (8 U options p v)
  then show ?case
    by (auto simp: handleResults_def is_valid_iff split: option.splits dest!: find_Some_D) 
qed

lemma zparse_OK_eq: "fst (zparse U t p v) = OK w \<Longrightarrow> zparse U t p v = (OK w, [])"
  using zparse_OK_no_issues[of U t p v w] by (simp add: prod_eq_iff)

lemma getParsedType_undefined [simp]: "getParsedType v = T_undefined \<longleftrightarrow> v = Undefined"
  by (cases v) simp_all

lemma mergeArray_cases:
  "mergeArray d rs acc = INVALID \<or> (\<exists>vs. mergeArray d rs acc = OK (Arr vs)) \<or>
   (\<exists>vs. mergeArray d rs acc = DIRTY (Arr vs))"
  by (induction d rs acc rule: mergeArray.induct) auto

lemma zparse_Undefined: "fst (zparse U t p v) = OK Undefined \<Longrightarrow> v = Undefined"
proof (induction U t p v rule: zparse.induct)
  case (1 U checks p v)
  then show ?case by (cases v) (auto simp: Let_def split: if_splits)
next
  case (2 U p v)
  then show ?case by (cases v) auto
next
  case (3 U p v)
  then show ?case by (cases v) auto
next
  case (4 U t p v)
  show ?case
  proof (cases "\<exists>xs. v = Arr xs")
    case True
    then obtain xs where Arr: "v = Arr xs" by blast
    have "mergeArray False rs [] \<noteq> OK Undefined" for rs
      using mergeArray_cases[of False rs "[]"] by auto
    with "4.prems"[unfolded Arr zparse_Arr fst_conv] show ?thesis by simp
  next
    case False
    then have "\<And>xs. v \<noteq> Arr xs" by blast
    from zparse_not_Arr[OF this] "4.prems" show ?thesis by simp
  qed
next
  case (5 U shape p v)
  show ?case
  proof (cases "\<exists>xs. v = Obj xs")
    case True
    then obtain kvs where Obj: "v = Obj kvs" by blast
    from "5.prems"[unfolded Obj zparse_Obj_OK_iff] show ?thesis by simp
  next
    case False
    then have "\<And>xs. v \<noteq> Obj xs" by blast
    from zparse_not_Obj[OF this] "5.prems" show ?thesis by simp
  qed
next
  case (6 U t p v)
  then show ?case by (cases "getParsedType v = T_undefined") (cases v; simp_all)+
next
  case (7 U t d p v)
  then show ?case by (cases "getParsedType v = T_undefined") (cases v; simp_all)+
next
  case (8 U options p v)
  from "8.prems" obtain r where "find is_valid (map (\<lambda>t. zparse U t p v) options) = Some r"
    and "fst r = OK Undefined"
    by (auto simp: handleResults_def split: option.splits dest!: find_Some_D)
  then obtain t where t: "t \<in> set options" and "fst (zparse U t p v) = OK Undefined"
    by (auto dest!: find_Some_D)
  with "8.IH" show ?case by blast
qed

lemma plain_id: "plain t \<Longrightarrow> fst (zparse U t p v) = OK w \<Longrightarrow> w = v"
proof (induction t arbitrary: w)
  case (ZodString checks)
  then show ?case by (cases v) (auto simp: Let_def split: if_splits)
next
  case ZodDate
  then show ?case by (cases v) auto
next
  case ZodBoolean
  then show ?case by (cases v) auto
next
  case (ZodUnion options)
  from ZodUnion.prems(2) obtain r where "find is_valid (map (\<lambda>t. zparse U t p v) options) = Some r"
    and "fst r = OK w"
    by (auto simp: handleResults_def split: option.splits dest!: find_Some_D)
  then obtain t where t: "t \<in> set options" and "fst (zparse U t p v) = OK w"
    by (auto dest!: find_Some_D)
  moreover from ZodUnion.prems(1) t have "plain t" by (simp add: list_all_iff)
  ultimately show ?case using ZodUnion.IH by blast
qed simp_all

lemma plain_idem:
  assumes "plain t" and "fst (zparse U t p v) = OK w"
  shows "zparse U t p w = (OK w, [])"
  using plain_id[OF assms] zparse_OK_eq[OF assms(2)] by simp

lemma mergeArray_all_OK:
  "\<forall>r \<in> set rs. \<exists>v. r = OK v \<Longrightarrow>
   mergeArray False rs acc = OK (Arr (acc @ map the_val rs))"
proof (induction rs arbitrary: acc)
  case Nil
  then show ?case by simp
next
  case (Cons r rs)
  from Cons.prems obtain v where r: "r = OK v" by auto
  from Cons.prems have "\<forall>r \<in> set rs. \<exists>v. r = OK v" by simp
  from Cons.IH[OF this] show ?case by (simp add: r)
qed

lemma array_idem:
  assumes IH: "\<And>p v w. fst (zparse U t p v) = OK w \<Longrightarrow> zparse U t p w = (OK w, [])"
    and ok: "fst (zparse U (ZodArray t) p v) = OK w"
  shows "zparse U (ZodArray t) p w = (OK w, [])"
proof (cases "\<exists>xs. v = Arr xs")
  case True
  then obtain xs where Arr: "v = Arr xs" by blast
  let ?f = "\<lambda>ix. zparse U t (p @ [Idx (fst ix)]) (snd ix)"
  let ?ws = "map (\<lambda>ix. the_val (fst (?f ix))) (enumerate 0 xs)"
  have each: "\<exists>v. fst (?f ix) = OK v" if "ix \<in> set (enumerate 0 xs)" for ix
    using zparse_Arr_OK_D[OF ok[unfolded Arr] that] .
  then have "\<forall>r \<in> set (map (\<lambda>ix. fst (?f ix)) (enumerate 0 xs)). \<exists>v. r = OK v"
    by (auto simp del: in_set_enumerate_eq)
  from mergeArray_all_OK[OF this, of "[]"] ok
  have w: "w = Arr ?ws" unfolding Arr zparse_Arr by (simp add: comp_def)
  have again: "?f ix = (OK (snd ix), [])" if "ix \<in> set (enumerate 0 ?ws)" for ix
  proof -
    from that have i: "fst ix < length xs" and s: "snd ix = ?ws ! fst ix"
      by (auto simp: in_set_enumerate_eq)
    let ?jx = "(fst ix, xs ! fst ix)"
    from i have mem: "?jx \<in> set (enumerate 0 xs)" by (simp add: in_set_enumerate_eq)
    from each[OF mem] obtain u where u: "fst (?f ?jx) = OK u" by blast
    from i have "?ws ! fst ix = the_val (fst (?f ?jx))"
      by (simp add: nth_enumerate_eq)
    with u s have "snd ix = u" by simp
    with IH[of "p @ [Idx (fst ix)]" "xs ! fst ix" u] u show ?thesis by simp
  qed
  have e1: "map (\<lambda>ix. fst (?f ix)) (enumerate 0 ?ws) = map (\<lambda>ix. OK (snd ix)) (enumerate 0 ?ws)"
    by (rule map_cong[OF refl]) (simp add: again del: in_set_enumerate_eq)
  have e2: "map (\<lambda>ix. snd (?f ix)) (enumerate 0 ?ws) = map (\<lambda>ix. []) (enumerate 0 ?ws)"
    by (rule map_cong[OF refl]) (simp add: again del: in_set_enumerate_eq)
  have e3: "mergeArray False (map (\<lambda>ix. OK (snd ix)) (enumerate 0 ?ws)) [] = OK (Arr ?ws)"
    using mergeArray_all_OK[of "map (\<lambda>ix. OK (snd ix)) (enumerate 0 ?ws)" "[]"]
    by (simp add: comp_def)
  show ?thesis unfolding w zparse_Arr e1 e2 e3 by simp
next
  case False
  then have "\<And>xs. v \<noteq> Arr xs" by blast
  from zparse_not_Arr[OF this] ok show ?thesis by simp
qed

lemma assign_absorb: "assign k v (v \<noteq> Undefined \<or> a) = assign k v a"
  by (rule ext) (simp add: assign_def)

lemma pairs_of_eq:
  assumes "\<And>kt. kt \<in> set shape \<Longrightarrow>
             fst (field U p kvs kt) = r kt \<and> (map_of kvs (fst kt) \<noteq> None) = a kt"
  shows "pairs_of U p kvs shape = map (\<lambda>kt. (fst kt, r kt, a kt)) shape"
  unfolding pairs_of_def by (rule map_cong[OF refl]) (use assms in auto)

lemma object_idem:
  assumes di: "distinct (map fst shape)" and np: "''__proto__'' \<notin> set (map fst shape)"
    and IH: "\<And>kt p v w. kt \<in> set shape \<Longrightarrow> fst (zparse U (snd kt) p v) = OK w \<Longrightarrow>
               zparse U (snd kt) p w = (OK w, [])"
    and ok: "fst (zparse U (ZodObject shape) p v) = OK w"
  shows "zparse U (ZodObject shape) p w = (OK w, [])"
proof (cases "\<exists>kvs. v = Obj kvs")
  case True
  then obtain kvs where Obj: "v = Obj kvs" by blast
  define out where "out = final (pairs_of U p kvs shape) []"
  define val_of where "val_of kt = the_val (fst (field U p kvs kt))" for kt
  define had where "had kt = (map_of kvs (fst kt) \<noteq> None)" for kt :: "string \<times> ZodType"
  from ok[unfolded Obj zparse_Obj_OK_iff]
  have each: "\<forall>kt \<in> set shape. \<exists>v. fst (field U p kvs kt) = OK v" and w: "w = Obj out"
    by (simp_all add: out_def)
  have fv: "fst (field U p kvs kt) = OK (val_of kt)" if "kt \<in> set shape" for kt
    using each that unfolding val_of_def by force
  have p0: "pairs_of U p kvs shape = map (\<lambda>kt. (fst kt, OK (val_of kt), had kt)) shape"
    by (rule pairs_of_eq) (simp add: fv had_def)
  have m: "map_of out (fst kt) =
             (if val_of kt \<noteq> Undefined \<or> had kt then Some (val_of kt) else None)"
    if "kt \<in> set shape" for kt
  proof -
    have "(fst kt, OK (val_of kt), had kt) \<in> set (pairs_of U p kvs shape)"
      unfolding p0 set_map using that by (rule imageI)
    moreover from np that have "fst kt \<noteq> ''__proto__''" by force
    moreover have "distinct (map fst (pairs_of U p kvs shape))" using di by simp
    ultimately show ?thesis
      unfolding out_def
      using map_of_final_in[of "pairs_of U p kvs shape" "fst kt" "OK (val_of kt)" "had kt" "[]"]
      by simp
  qed
  have l: "lookup out (fst kt) = val_of kt" if "kt \<in> set shape" for kt
    using m[OF that] by (simp add: lookup.simps)
  have f: "field U p out kt = (OK (val_of kt), [])" if "kt \<in> set shape" for kt
  proof -
    have "fst (zparse U (snd kt) (p @ [Key (fst kt)]) (lookup kvs (fst kt))) = OK (val_of kt)"
      using fv[OF that] by (simp add: field_def)
    from IH[OF that this] l[OF that] show ?thesis by (simp add: field_def)
  qed
  have p1: "pairs_of U p out shape =
      map (\<lambda>kt. (fst kt, OK (val_of kt), val_of kt \<noteq> Undefined \<or> had kt)) shape"
    by (rule pairs_of_eq) (simp add: f m)
  have "final (pairs_of U p out shape) [] =
      fold (\<lambda>kt. assign (fst kt) (val_of kt) (val_of kt \<noteq> Undefined \<or> had kt)) shape []"
    unfolding p1 final_def fold_map by (simp add: comp_def)
  also have "\<dots> = fold (\<lambda>kt. assign (fst kt) (val_of kt) (had kt)) shape []"
    by (simp only: assign_absorb)
  also have "\<dots> = out"
    unfolding out_def p0 final_def fold_map by (simp add: comp_def)
  finally have same: "final (pairs_of U p out shape) [] = out" .
  have ok': "\<forall>x \<in> set (pairs_of U p out shape). \<exists>v. fst (snd x) = OK v"
    unfolding p1 by simp
  have "concat (map (\<lambda>kt. snd (field U p out kt)) shape) = []"
    by (simp add: f)
  with mergeObjectSync_all_OK[OF ok', of "[]"] same
  show ?thesis unfolding w zparse_Obj by simp
next
  case False
  then have "\<And>xs. v \<noteq> Obj xs" by blast
  from zparse_not_Obj[OF this] ok show ?thesis by simp
qed

lemma stable_idem:
  "stable t \<Longrightarrow> fst (zparse U t p v) = OK w \<Longrightarrow> zparse U t p w = (OK w, [])"
proof (induction t arbitrary: p v w)
  case (ZodString checks)
  then show ?case by (intro plain_idem[of _ U p v]) simp_all
next
  case ZodDate
  then show ?case by (intro plain_idem[of _ U p v]) simp_all
next
  case ZodBoolean
  then show ?case by (intro plain_idem[of _ U p v]) simp_all
next
  case (ZodArray t)
  from ZodArray.prems(1) have "stable t" by simp
  from array_idem[OF ZodArray.IH[OF this] ZodArray.prems(2)] show ?case .
next
  case (ZodObject shape)
  from ZodObject.prems(1) have di: "distinct (map fst shape)"
    and np: "''__proto__'' \<notin> set (map fst shape)"
    and st: "\<forall>kt \<in> set shape. stable (snd kt)"
    by (simp_all add: list_all_iff)
  have IH: "zparse U (snd kt) p w = (OK w, [])"
    if "kt \<in> set shape" and "fst (zparse U (snd kt) p u) = OK w" for kt p u w
  proof -
    from that(1) st have "stable (snd kt)" by blast
    moreover have "snd kt \<in> Basic_BNFs.snds kt"
      by (cases kt) simp
    ultimately show ?thesis using ZodObject.IH[OF that(1) _ _ that(2)] by blast
  qed
  from object_idem[OF di np IH ZodObject.prems(2)] show ?case .
next
  case (ZodOptional t)
  from ZodOptional.prems(1) have st: "stable t" by simp
  show ?case
  proof (cases "v = Undefined")
    case True
    with ZodOptional.prems(2) show ?thesis by simp
  next
    case False
    then have nu: "getParsedType v \<noteq> T_undefined" by (cases v) simp_all
    with ZodOptional.prems(2) have "fst (zparse U t p v) = OK w" by simp
    from ZodOptional.IH[OF st this] show ?thesis by simp
  qed
next
  case (ZodDefault t d)
  from ZodDefault.prems(1) have st: "stable t" by simp
  from ZodDefault.prems(2) obtain u where u: "fst (zparse U t p u) = OK w"
    by (cases "getParsedType v = T_undefined") auto
  note again = ZodDefault.IH[OF st u]
  show ?case
  proof (cases "w = Undefined")
    case True
    from zparse_Undefined[OF ZodDefault.prems(2)[unfolded True]] have "v = w"
      by (simp add: True)
    with zparse_OK_eq[OF ZodDefault.prems(2)] show ?thesis by simp
  next
    case False
    then have "getParsedType w \<noteq> T_undefined" by (cases w) simp_all
    with again show ?thesis by simp
  qed
next
  case (ZodUnion options)
  then show ?case by (intro plain_idem[of _ U p v]) simp_all
qed

lemma stable_schemas:
  "c = blog \<or> c = project \<or> c = blog_earlier \<or> c = project_earlier \<Longrightarrow> stable (schema c)"
  by (auto simp: schemas)

section \<open>Two schemas on the same record\<close>

lemma shared_field:
  assumes "schema c1 = ZodObject s1" and "distinct (map fst s1)"
    and "schema c2 = ZodObject s2" and "distinct (map fst s2)"
    and "validate U c1 r = Inr (Obj o1)" and "validate U c2 r = Inr (Obj o2)"
    and "(f, t) \<in> set s1" and "(f, t) \<in> set s2" and "f \<noteq> ''__proto__''"
  shows "map_of o1 f = map_of o2 f"
proof -
  from output_field[OF assms(1,2,5,7,9)] obtain v1 where
    v1: "fst (field U [] r (f, t)) = OK v1"
    and m1: "map_of o1 f = (if v1 \<noteq> Undefined \<or> map_of r f \<noteq> None then Some v1 else None)"
    by auto
  from output_field[OF assms(3,4,6,8,9)] obtain v2 where
    v2: "fst (field U [] r (f, t)) = OK v2"
    and m2: "map_of o2 f = (if v2 \<noteq> Undefined \<or> map_of r f \<noteq> None then Some v2 else None)"
    by auto
  from v1 v2 have "v1 = v2" by simp
  with m1 m2 show ?thesis by simp
qed

lemma sub_shape_accepts:
  assumes "schema c1 = ZodObject s1" and "schema c2 = ZodObject s2"
    and "set s2 \<subseteq> set s1" and "validate U c1 r = Inr w1"
  shows "\<exists>o2. validate U c2 r = Inr (Obj o2)"
proof -
  from assms(4) have "\<forall>kt \<in> set s1. \<exists>v. fst (field U [] r kt) = OK v"
    by (simp add: validate_Inr_iff[OF assms(1)])
  with assms(3) have "\<forall>kt \<in> set s2. \<exists>v. fst (field U [] r kt) = OK v" by blast
  then show ?thesis by (simp add: validate_Inr_iff[OF assms(2)])
qed

lemma field_optional_string:
  "lookup r k = Undefined \<or> lookup r k = Str s \<Longrightarrow>
   field U [] r (k, ZodOptional (ZodString [])) = (OK (lookup r k), [])"
  by (auto simp: field_def)

lemma later_shapes:
  assumes "(e, l, k) = (blog_earlier, blog, ''project'') \<or>
           (e, l, k) = (project_earlier, project, ''thumbnail'')"
  shows "set (shape_of (schema l)) = insert (k, ZodOptional (ZodString [])) (set (shape_of (schema e)))"
    and "k \<notin> set (declared_keys e)" and "k \<noteq> ''__proto__''"
    and "''__proto__'' \<notin> set (declared_keys e)"
  using assms by (auto simp: schemas declared_keys_def)

section \<open>Evaluation of closed examples\<close>

lemmas eval_defs = validate_def safeParse_def zparse_Obj zparse_Arr pairs_of_def
      field_def lookup.simps handleResults_def assign_def is_alpha_def is_scheme_char_def

section \<open>Optional string keys and declared keys\<close>

lemma field_string_ok:
  "lookup r k = Str s \<Longrightarrow> field U [] r (k, ZodOptional (ZodString [])) = (OK (Str s), [])"
  by (simp add: field_def)

lemma any_string_accepted:
  assumes "c = blog \<or> c = project \<or> c = blog_earlier \<or> c = project_earlier"
    and "(k, ZodOptional (ZodString [])) \<in> set (shape_of (schema c))"
    and "map_of r k = Some (Str s)"
  shows "(\<forall>is. validate U c r = Inl is \<longrightarrow> (\<forall>i \<in> set is. \<not> about k i)) \<and>
         (\<forall>out. validate U c r = Inr (Obj out) \<longrightarrow> map_of out k = Some (Str s))"
proof -
  from assms(3) have "lookup r k = Str s" by (simp add: lookup.simps)
  note f = field_string_ok[OF this, of U]
  have "''__proto__'' \<notin> fst ` set (shape_of (schema c))"
    using assms(1) by (auto simp: schemas)
  with assms(2) have np: "k \<noteq> ''__proto__''" by force
  have nu: "Str s \<noteq> Undefined" by simp
  from accepted_field[OF shape_of_schema[OF assms(1)] distinct_fields[OF assms(1)] assms(2) np f nu]
  show ?thesis .
qed

lemma declared_only:
  assumes "c = blog \<or> c = project \<or> c = blog_earlier \<or> c = project_earlier"
    and "validate U c r = Inr w"
  shows "\<exists>out. w = Obj out \<and> fst ` set out \<subseteq> set (declared_keys c)"
  using output_keys[OF shape_of_schema[OF assms(1)] assms(2)] by (simp add: declared_keys_def)

lemma blog_project_any_string:
  "validate U blog [(''title'', Str ''T''), (''date'', Str ''2026-01-15''), (''project'', Str s)] =
     Inr (Obj [(''title'', Str ''T''), (''date'', Str ''2026-01-15''),
               (''tags'', Arr []), (''project'', Str s), (''draft'', Bool False)])"
  by (simp add: eval_defs schema_blog)

lemma project_thumbnail_any_string:
  "validate U project [(''title'', Str ''T''), (''date'', Str ''2026-01-15''), (''thumbnail'', Str s)] =
     Inr (Obj [(''title'', Str ''T''), (''date'', Str ''2026-01-15''),
               (''thumbnail'', Str s), (''tags'', Arr []), (''draft'', Bool False)])"
  by (simp add: eval_defs schema_project)

section \<open>Normalized entries and the draft flag\<close>

lemma count_list_filter:
  "count_list (filter f xs) e = (if f e then count_list xs e else 0)"
  by (induction xs) auto

lemma field_draft_boolean:
  "fst (field U [] r (k, ZodDefault ZodBoolean (Bool False))) = OK v \<Longrightarrow> \<exists>b. v = Bool b"
  by (cases "lookup r k") (auto simp: field_def)

lemma draft_boolean:
  assumes "validate U blog r = Inr w"
  shows "\<exists>out b. w = Obj out \<and> lookup out ''draft'' = Bool b"
proof -
  have b: "blog = blog \<or> blog = project \<or> blog = blog_earlier \<or> blog = project_earlier"
    by simp
  have m: "(''draft'', ZodDefault ZodBoolean (Bool False)) \<in> set (shape_of (schema blog))"
    by (simp add: schema_blog)
  have np: "''draft'' \<noteq> ''__proto__''" by simp
  from output_field[OF shape_of_schema[OF b] distinct_fields[OF b] assms m np]
  obtain out v where w: "w = Obj out"
    and v: "fst (field U [] r (''draft'', ZodDefault ZodBoolean (Bool False))) = OK v"
    and o: "map_of out ''draft'' = (if v \<noteq> Undefined \<or> map_of r ''draft'' \<noteq> None then Some v else None)"
    by blast
  from field_draft_boolean[OF v] obtain b where "v = Bool b" by blast
  with o have "lookup out ''draft'' = Bool b" by (simp add: lookup.simps)
  with w show ?thesis by blast
qed

lemma normalized_not_draft:
  assumes "validate U blog r = Inr (metadata e)"
  shows "not_draft e \<longleftrightarrow> \<not> draft_true e"
proof -
  from draft_boolean[OF assms] obtain out b where "metadata e = Obj out"
    and "lookup out ''draft'' = Bool b" by blast
  then show ?thesis by (simp add: not_draft_def draft_true_def)
qed

lemma example_normalized:
  "\<exists>r. validate has_scheme blog r = Inr (metadata (post i d))"
  by (rule exI[of _ "[(''title'', Str i), (''date'', Str ''2026-01-15''), (''draft'', Bool d)]"])
     (simp add: eval_defs schema_blog post_def)

section \<open>The parser over the heap refines the parser over values\<close>

lemma prefix_nth: "prefix h h' \<Longrightarrow> a < length h \<Longrightarrow> h' ! a = h ! a"
  by (auto simp: prefix_def nth_append)

lemma repr_mono: "prefix h h' \<Longrightarrow> repr h hv v \<Longrightarrow> repr h' hv v"
proof (induction v arbitrary: hv)
  case (Arr vs)
  from Arr.prems(2) obtain a where hv: "hv = HArr a" and a: "a < length h"
    and l: "list_all2 (repr h) (h ! a) vs"
    by (cases hv) auto
  from Arr.prems(1) a have a': "a < length h'" by (auto simp: prefix_def)
  from l have "list_all2 (repr h') (h ! a) vs"
  proof (rule list.rel_mono_strong)
    fix x v assume "v \<in> set vs" and "repr h x v"
    with Arr.IH[OF _ Arr.prems(1)] show "repr h' x v" by blast
  qed
  with hv a' prefix_nth[OF Arr.prems(1) a] show ?case by simp
next
  case (Obj kvs)
  from Obj.prems(2) obtain hkvs where hv: "hv = HObj hkvs"
    and l: "list_all2 (\<lambda>hkv kv. fst hkv = fst kv \<and> repr h (snd hkv) (snd kv)) hkvs kvs"
    by (cases hv) auto
  from l have "list_all2 (\<lambda>hkv kv. fst hkv = fst kv \<and> repr h' (snd hkv) (snd kv)) hkvs kvs"
  proof (rule list.rel_mono_strong)
    fix hkv kv assume kv: "kv \<in> set kvs" and r: "fst hkv = fst kv \<and> repr h (snd hkv) (snd kv)"
    have "snd kv \<in> Basic_BNFs.snds kv" by (cases kv) simp
    from Obj.IH[OF kv this Obj.prems(1)] r
    show "fst hkv = fst kv \<and> repr h' (snd hkv) (snd kv)" by blast
  qed
  with hv show ?case by simp
qed auto

lemma rrel_mono: "prefix h h' \<Longrightarrow> rrel h hr r \<Longrightarrow> rrel h' hr r"
  by (cases "(h, hr, r)" rule: rrel.cases) (auto intro: repr_mono)

lemma srel_mono: "prefix h h' \<Longrightarrow> srel h ht t \<Longrightarrow> srel h' ht t"
proof (induction t arbitrary: ht)
  case (ZodArray t)
  then show ?case by (cases ht) auto
next
  case (ZodObject shape)
  from ZodObject.prems(2) obtain hshape where ht: "ht = HZodObject hshape"
    and l: "list_all2 (\<lambda>hkt kt. fst hkt = fst kt \<and> srel h (snd hkt) (snd kt)) hshape shape"
    by (cases ht) auto
  from l have "list_all2 (\<lambda>hkt kt. fst hkt = fst kt \<and> srel h' (snd hkt) (snd kt)) hshape shape"
  proof (rule list.rel_mono_strong)
    fix hkt kt assume kt: "kt \<in> set shape" and r: "fst hkt = fst kt \<and> srel h (snd hkt) (snd kt)"
    have "snd kt \<in> Basic_BNFs.snds kt" by (cases kt) simp
    from ZodObject.IH[OF kt this ZodObject.prems(1)] r
    show "fst hkt = fst kt \<and> srel h' (snd hkt) (snd kt)" by blast
  qed
  with ht show ?case by simp
next
  case (ZodOptional t)
  then show ?case by (cases ht) auto
next
  case (ZodDefault t d)
  then show ?case by (cases ht) (auto intro: repr_mono)
next
  case (ZodUnion options)
  from ZodUnion.prems(2) obtain hoptions where ht: "ht = HZodUnion hoptions"
    and l: "list_all2 (srel h) hoptions options"
    by (cases ht) auto
  from l have "list_all2 (srel h') hoptions options"
  proof (rule list.rel_mono_strong)
    fix x t assume "t \<in> set options" and "srel h x t"
    with ZodUnion.IH[OF _ ZodUnion.prems(1)] show "srel h' x t" by blast
  qed
  with ht show ?case by simp
qed auto

lemma repr_ParsedType: "repr h hv v \<Longrightarrow> hParsedType hv = getParsedType v"
  by (cases v; cases hv) auto

lemma hmergeArray_refine:
  assumes "list_all2 (rrel h) hrs rs" and "list_all2 (repr h) hacc acc"
    and "hmergeArray d hrs hacc h = (hr, h')"
  shows "prefix h h' \<and> rrel h' hr (mergeArray d rs acc)"
  using assms
proof (induction hrs rs arbitrary: d hacc acc rule: list_all2_induct)
  case Nil
  from Nil.prems(2) have h': "h' = h @ [hacc]"
    and hr: "hr = (if d then HDIRTY (HArr (length h)) else HOK (HArr (length h)))"
    by auto
  have p: "prefix h h'" by (simp add: h')
  from Nil.prems(1) have "list_all2 (repr h') hacc acc"
    by (rule list.rel_mono_strong) (rule repr_mono[OF p])
  then have "repr h' (HArr (length h)) (Arr acc)" by (simp add: h')
  with p hr show ?case by simp
next
  case (Cons x hrs y rs)
  show ?case
  proof (cases x)
    case (HOK w)
    with Cons.hyps(1) obtain v where y: "y = OK v" and r: "repr h w v"
      by (cases y) auto
    from Cons.prems(1) r have l: "list_all2 (repr h) (hacc @ [w]) (acc @ [v])"
      by (simp add: list_all2_appendI)
    from Cons.prems(2) have "hmergeArray d hrs (hacc @ [w]) h = (hr, h')" by (simp add: HOK)
    from Cons.IH[OF l this] show ?thesis by (simp add: y)
  next
    case (HDIRTY w)
    with Cons.hyps(1) obtain v where y: "y = DIRTY v" and r: "repr h w v"
      by (cases y) auto
    from Cons.prems(1) r have l: "list_all2 (repr h) (hacc @ [w]) (acc @ [v])"
      by (simp add: list_all2_appendI)
    from Cons.prems(2) have "hmergeArray True hrs (hacc @ [w]) h = (hr, h')" by (simp add: HDIRTY)
    from Cons.IH[OF l this] show ?thesis by (simp add: y)
  next
    case HINVALID
    with Cons.hyps(1) have y: "y = INVALID" by (cases y) auto
    from Cons.prems(2) HINVALID show ?thesis by (auto simp: y)
  qed
qed

lemma orel_map_of:
  "orel h hkvs kvs \<Longrightarrow> rel_option (repr h) (map_of hkvs k) (map_of kvs k)"
  unfolding orel_def
  by (induction hkvs kvs rule: list_all2_induct) auto

lemma orel_lookup:
  assumes "orel h hkvs kvs"
  shows "repr h (hlookup hkvs k) (lookup kvs k)"
    and "(map_of hkvs k \<noteq> None) = (map_of kvs k \<noteq> None)"
  using orel_map_of[OF assms, of k]
  by (auto simp: lookup.simps elim!: option.rel_cases)

lemma orel_update:
  "orel h hkvs kvs \<Longrightarrow> repr h w v \<Longrightarrow> orel h (AList.update k w hkvs) (AList.update k v kvs)"
  unfolding orel_def
  by (induction hkvs kvs rule: list_all2_induct) auto

lemma repr_Undefined: "repr h w v \<Longrightarrow> (w = HUndefined) = (v = Undefined)"
  by (cases v; cases w) auto

lemma orel_assign:
  "orel h hkvs kvs \<Longrightarrow> repr h w v \<Longrightarrow> orel h (hassign k w a hkvs) (assign k v a kvs)"
  using repr_Undefined[of h w v] by (auto simp: hassign_def assign_def orel_update)

lemma hmergeObjectSync_refine:
  assumes "list_all2 (\<lambda>hx x. fst hx = fst x \<and> rrel h (fst (snd hx)) (fst (snd x)) \<and>
                      snd (snd hx) = snd (snd x)) hpairs pairs"
    and "orel h hacc acc"
  shows "rrel h (hmergeObjectSync d hpairs hacc) (mergeObjectSync d pairs acc)"
  using assms
proof (induction hpairs pairs arbitrary: d hacc acc rule: list_all2_induct)
  case Nil
  then show ?case by (simp add: orel_def)
next
  case (Cons hx hpairs x pairs)
  obtain k hr a where hx: "hx = (k, hr, a)" by (cases hx)
  with Cons.hyps(1) obtain r where x: "x = (k, r, a)" and rr: "rrel h hr r"
    by (cases x) auto
  show ?case
  proof (cases hr)
    case (HOK w)
    with rr obtain v where r: "r = OK v" and "repr h w v" by (cases r) auto
    from Cons.IH[OF orel_assign[OF Cons.prems this(2)]] show ?thesis
      by (simp add: hx x HOK r)
  next
    case (HDIRTY w)
    with rr obtain v where r: "r = DIRTY v" and "repr h w v" by (cases r) auto
    from Cons.IH[OF orel_assign[OF Cons.prems this(2)]] show ?thesis
      by (simp add: hx x HDIRTY r)
  next
    case HINVALID
    with rr have "r = INVALID" by (cases r) auto
    then show ?thesis by (simp add: hx x HINVALID)
  qed
qed

lemma find_rel:
  assumes "list_all2 R xs ys" and "\<And>x y. R x y \<Longrightarrow> P x = Q y"
  shows "rel_option R (find P xs) (find Q ys)"
  using assms by (induction xs ys rule: list_all2_induct) auto

lemma resrel_valid: "resrel h hres res \<Longrightarrow> h_is_valid hres = is_valid res"
  by (cases hres rule: h_is_valid.cases; cases res rule: is_valid.cases)
     (auto simp: resrel_def)

lemma resrel_dirty: "resrel h hres res \<Longrightarrow> h_is_dirty (fst hres) = is_dirty (fst res)"
  by (cases "fst hres"; cases "fst res") (auto simp: resrel_def)

lemma hhandleResults_refine:
  assumes "list_all2 (resrel h) hresults results"
  shows "resrel h (hhandleResults p hresults) (handleResults p results)"
proof -
  have v: "rel_option (resrel h) (find h_is_valid hresults) (find is_valid results)"
    by (rule find_rel[OF assms]) (rule resrel_valid)
  have d: "rel_option (resrel h) (find (\<lambda>r. h_is_dirty (fst r)) hresults)
             (find (\<lambda>r. is_dirty (fst r)) results)"
    by (rule find_rel[OF assms]) (rule resrel_dirty)
  have s: "map snd hresults = map snd results"
    using assms by (induction hresults results rule: list_all2_induct) (auto simp: resrel_def)
  show ?thesis
  proof (cases "find h_is_valid hresults")
    case (Some hr)
    with v obtain r where "find is_valid results = Some r" and "resrel h hr r"
      by (auto elim: option.rel_cases)
    with Some show ?thesis by (simp add: hhandleResults_def handleResults_def resrel_def)
  next
    case None
    with v have n: "find is_valid results = None" by (auto elim: option.rel_cases)
    show ?thesis
    proof (cases "find (\<lambda>r. h_is_dirty (fst r)) hresults")
      case (Some hr)
      with d obtain r where "find (\<lambda>r. is_dirty (fst r)) results = Some r" and "resrel h hr r"
        by (auto elim: option.rel_cases)
      with Some None n show ?thesis by (simp add: hhandleResults_def handleResults_def)
    next
      case None' : None
      with d have "find (\<lambda>r. is_dirty (fst r)) results = None" by (auto elim: option.rel_cases)
      with None None' n s show ?thesis
        by (simp add: hhandleResults_def handleResults_def resrel_def)
    qed
  qed
qed

lemma smap_refine:
  assumes "list_all2 A xs xs'"
    and "\<And>x x' h1 y h2. A x x' \<Longrightarrow> x' \<in> set xs' \<Longrightarrow> prefix h h1 \<Longrightarrow> f x h1 = (y, h2) \<Longrightarrow>
           prefix h1 h2 \<and> B h2 y x'"
    and "\<And>h1 h2 y x'. prefix h1 h2 \<Longrightarrow> B h1 y x' \<Longrightarrow> B h2 y x'"
    and "smap f xs h = (ys, h')"
  shows "prefix h h' \<and> list_all2 (B h') ys xs'"
  using assms
proof (induction xs xs' arbitrary: h ys h' rule: list_all2_induct)
  case Nil
  then show ?case by simp
next
  case (Cons x xs x' xs')
  obtain y h1 where f: "f x h = (y, h1)" by (cases "f x h")
  obtain ys' h2 where s: "smap f xs h1 = (ys', h2)" by (cases "smap f xs h1")
  from Cons.prems(3) f s have ys: "ys = y # ys'" and h': "h' = h2" by simp_all
  from Cons.prems(1)[OF Cons.hyps(1) _ _ f] have p1: "prefix h h1" and b: "B h1 y x'" by simp_all
  have step: "\<And>x x' h1' y h2. A x x' \<Longrightarrow> x' \<in> set xs' \<Longrightarrow> prefix h1 h1' \<Longrightarrow> f x h1' = (y, h2) \<Longrightarrow>
           prefix h1' h2 \<and> B h2 y x'"
  proof -
    fix x x' h1' y h2
    assume "A x x'" and "x' \<in> set xs'" and "prefix h1 h1'" and "f x h1' = (y, h2)"
    moreover from p1 \<open>prefix h1 h1'\<close> have "prefix h h1'" by (rule prefix_order.order_trans)
    ultimately show "prefix h1' h2 \<and> B h2 y x'" using Cons.prems(1)[of x x' h1' y h2] by simp
  qed
  from Cons.IH[OF step Cons.prems(2) s] have p2: "prefix h1 h2" and l: "list_all2 (B h2) ys' xs'"
    by simp_all
  from Cons.prems(2)[OF p2 b] l p1 p2 show ?case
    unfolding ys h' by (auto intro: prefix_order.order_trans)
qed

lemma list_all2_enumerate:
  "list_all2 R xs ys \<Longrightarrow>
   list_all2 (\<lambda>ix iy. fst ix = fst iy \<and> R (snd ix) (snd iy)) (enumerate n xs) (enumerate n ys)"
  by (induction xs ys arbitrary: n rule: list_all2_induct) auto

lemma resrel_mono: "prefix h h' \<Longrightarrow> resrel h hres res \<Longrightarrow> resrel h' hres res"
  by (auto simp: resrel_def intro: rrel_mono)

lemma resrel_lists:
  assumes "list_all2 (\<lambda>y x. resrel h y (g x)) ys xs"
  shows "map snd ys = map (\<lambda>x. snd (g x)) xs"
    and "list_all2 (rrel h) (map fst ys) (map (\<lambda>x. fst (g x)) xs)"
  using assms by (induction ys xs rule: list_all2_induct) (auto simp: resrel_def)

lemma hparse_leaf:
  assumes "repr h hv v"
  shows "hparse U (HZodString checks) p hv h = (hres, h') \<Longrightarrow>
           h' = h \<and> resrel h hres (zparse U (ZodString checks) p v)"
    and "hparse U HZodDate p hv h = (hres, h') \<Longrightarrow>
           h' = h \<and> resrel h hres (zparse U ZodDate p v)"
    and "hparse U HZodBoolean p hv h = (hres, h') \<Longrightarrow>
           h' = h \<and> resrel h hres (zparse U ZodBoolean p v)"
  using assms by (cases v; cases hv; auto simp: resrel_def Let_def)+

lemma hparse_Array_refine:
  assumes IH: "\<And>ht hv v h h' hres p. srel h ht t \<Longrightarrow> repr h hv v \<Longrightarrow>
                 hparse U ht p hv h = (hres, h') \<Longrightarrow>
                 prefix h h' \<and> resrel h' hres (zparse U t p v)"
    and s: "srel h ht' t" and r: "repr h hv v"
    and hp: "hparse U (HZodArray ht') p hv h = (hres, h')"
  shows "prefix h h' \<and> resrel h' hres (zparse U (ZodArray t) p v)"
proof (cases "\<exists>vs. v = Arr vs")
  case True
  then obtain vs where v: "v = Arr vs" by blast
  with r obtain a where hv: "hv = HArr a" and a: "a < length h"
    and l: "list_all2 (repr h) (h ! a) vs"
    by (cases hv) auto
  let ?f = "\<lambda>ix. hparse U ht' (p @ [Idx (fst ix)]) (snd ix)"
  let ?g = "\<lambda>ix. zparse U t (p @ [Idx (fst ix)]) (snd ix)"
  obtain results h1 where sm: "smap ?f (enumerate 0 (h ! a)) h = (results, h1)"
    by (cases "smap ?f (enumerate 0 (h ! a)) h")
  obtain hr h2 where m: "hmergeArray False (map fst results) [] h1 = (hr, h2)"
    by (cases "hmergeArray False (map fst results) [] h1")
  from hp sm m a have hres: "hres = (hr, concat (map snd results))" and h': "h' = h2"
    by (simp_all add: hv elems_def)
  have step: "prefix h1' h2' \<and> resrel h2' y (?g x')"
    if "fst x = fst x' \<and> repr h (snd x) (snd x')" and "prefix h h1'" and "?f x h1' = (y, h2')"
    for x x' h1' y h2'
    using IH[OF srel_mono[OF that(2) s] repr_mono[OF that(2)], of "snd x" "snd x'"
        "p @ [Idx (fst x')]" y h2'] that(1,3)
    by simp
  from smap_refine[OF list_all2_enumerate[OF l, of 0], of h ?f "\<lambda>h y x. resrel h y (?g x)", OF _ _ sm]
    step resrel_mono
  have p1: "prefix h h1" and rl: "list_all2 (\<lambda>y x. resrel h1 y (?g x)) results (enumerate 0 vs)"
    by blast+
  note rs = resrel_lists[OF rl]
  from hmergeArray_refine[OF rs(2) _ m]
  have p2: "prefix h1 h2"
    and rr: "rrel h2 hr (mergeArray False (map (\<lambda>x. fst (?g x)) (enumerate 0 vs)) [])"
    by simp_all
  from p1 p2 have "prefix h h'" unfolding h' by (rule prefix_order.order_trans)
  with rr rs(1) show ?thesis
    unfolding v zparse_Arr hres h' by (simp add: resrel_def)
next
  case False
  then have nv: "\<And>xs. v \<noteq> Arr xs" by blast
  with r have "\<And>a. hv \<noteq> HArr a" by (cases v; cases hv) auto
  then have "hparse U (HZodArray ht') p hv h = ((HINVALID, [invalid_type p T_array (hParsedType hv)]), h)"
    by (cases hv) auto
  with hp zparse_not_Arr[OF nv] repr_ParsedType[OF r] show ?thesis
    by (auto simp: resrel_def)
qed

lemma pairs_rel:
  assumes "list_all2 (\<lambda>hkt kt. fst hkt = fst kt \<and> S (snd hkt) (snd kt)) hshape shape"
    and "list_all2 (\<lambda>y kt. resrel h y (g kt)) results shape"
    and "\<And>k. (map_of hkvs k \<noteq> None) = (map_of kvs k \<noteq> None)"
  shows "list_all2 (\<lambda>hx x. fst hx = fst x \<and> rrel h (fst (snd hx)) (fst (snd x)) \<and>
                      snd (snd hx) = snd (snd x))
           (map (\<lambda>(kt, r). (fst kt, fst r, map_of hkvs (fst kt) \<noteq> None)) (zip hshape results))
           (map (\<lambda>kt. (fst kt, fst (g kt), map_of kvs (fst kt) \<noteq> None)) shape)"
  using assms(1,2)
proof (induction hshape shape arbitrary: results rule: list_all2_induct)
  case Nil
  then show ?case by simp
next
  case (Cons hkt hshape kt shape)
  from Cons.prems obtain y ys where results: "results = y # ys" and y: "resrel h y (g kt)"
    and ys: "list_all2 (\<lambda>y kt. resrel h y (g kt)) ys shape"
    by (cases results) auto
  from Cons.IH[OF ys] Cons.hyps(1) y assms(3) show ?case
    by (simp add: results resrel_def)
qed

lemma hparse_Object_refine:
  assumes IH: "\<And>kt ht hv v h h' hres p. kt \<in> set shape \<Longrightarrow> srel h ht (snd kt) \<Longrightarrow> repr h hv v \<Longrightarrow>
                 hparse U ht p hv h = (hres, h') \<Longrightarrow>
                 prefix h h' \<and> resrel h' hres (zparse U (snd kt) p v)"
    and s: "list_all2 (\<lambda>hkt kt. fst hkt = fst kt \<and> srel h (snd hkt) (snd kt)) hshape shape"
    and r: "repr h hv v"
    and hp: "hparse U (HZodObject hshape) p hv h = (hres, h')"
  shows "prefix h h' \<and> resrel h' hres (zparse U (ZodObject shape) p v)"
proof (cases "\<exists>kvs. v = Obj kvs")
  case True
  then obtain kvs where v: "v = Obj kvs" by blast
  with r obtain hkvs where hv: "hv = HObj hkvs" and o: "orel h hkvs kvs"
    by (cases hv) (auto simp: orel_def)
  let ?f = "\<lambda>kt. hparse U (snd kt) (p @ [Key (fst kt)]) (hlookup hkvs (fst kt))"
  obtain results h1 where sm: "smap ?f hshape h = (results, h1)"
    by (cases "smap ?f hshape h")
  from hp sm have hres: "hres = (hmergeObjectSync False
                   (map (\<lambda>(kt, r). (fst kt, fst r, map_of hkvs (fst kt) \<noteq> None)) (zip hshape results)) [],
                 concat (map snd results))" and h': "h' = h1"
    by (simp_all add: hv)
  have step: "prefix h1' h2' \<and> resrel h2' y (field U p kvs x')"
    if "fst x = fst x' \<and> srel h (snd x) (snd x')" and "x' \<in> set shape"
      and "prefix h h1'" and "?f x h1' = (y, h2')"
    for x x' h1' y h2'
  proof -
    from that(1) have k: "fst x = fst x'" and sr: "srel h (snd x) (snd x')" by simp_all
    from orel_lookup(1)[OF o, of "fst x'"] have "repr h (hlookup hkvs (fst x')) (lookup kvs (fst x'))" .
    from IH[OF that(2) srel_mono[OF that(3) sr] repr_mono[OF that(3) this], of "p @ [Key (fst x')]" y h2']
      that(4) k
    show ?thesis by (simp add: field_def)
  qed
  from smap_refine[OF s, of h ?f "\<lambda>h y kt. resrel h y (field U p kvs kt)", OF _ _ sm]
    step resrel_mono
  have p1: "prefix h h1" and rl: "list_all2 (\<lambda>y kt. resrel h1 y (field U p kvs kt)) results shape"
    by blast+
  note rs = resrel_lists[OF rl]
  from orel_lookup(2)[OF o] have flags: "\<And>k. (map_of hkvs k \<noteq> None) = (map_of kvs k \<noteq> None)" .
  have "orel h1 [] []" by (simp add: orel_def)
  from hmergeObjectSync_refine[OF pairs_rel[OF s rl flags] this, of False]
  have "rrel h1 (fst hres) (mergeObjectSync False (pairs_of U p kvs shape) [])"
    by (simp add: hres pairs_of_def)
  with rs(1) p1 show ?thesis
    unfolding v zparse_Obj h' by (simp add: resrel_def hres)
next
  case False
  then have nv: "\<And>xs. v \<noteq> Obj xs" by blast
  with r have "\<And>a. hv \<noteq> HObj a" by (cases v; cases hv) auto
  then have "hparse U (HZodObject hshape) p hv h = ((HINVALID, [invalid_type p T_object (hParsedType hv)]), h)"
    by (cases hv) auto
  with hp zparse_not_Obj[OF nv] repr_ParsedType[OF r] show ?thesis
    by (auto simp: resrel_def)
qed

lemma hparse_Union_refine:
  assumes IH: "\<And>t ht hv v h h' hres p. t \<in> set options \<Longrightarrow> srel h ht t \<Longrightarrow> repr h hv v \<Longrightarrow>
                 hparse U ht p hv h = (hres, h') \<Longrightarrow>
                 prefix h h' \<and> resrel h' hres (zparse U t p v)"
    and s: "list_all2 (srel h) hoptions options"
    and r: "repr h hv v"
    and hp: "hparse U (HZodUnion hoptions) p hv h = (hres, h')"
  shows "prefix h h' \<and> resrel h' hres (zparse U (ZodUnion options) p v)"
proof -
  let ?f = "\<lambda>t. hparse U t p hv"
  obtain results h1 where sm: "smap ?f hoptions h = (results, h1)"
    by (cases "smap ?f hoptions h")
  from hp sm have hres: "hres = hhandleResults p results" and h': "h' = h1" by simp_all
  have step: "prefix h1' h2' \<and> resrel h2' y (zparse U x' p v)"
    if "srel h x x'" and "x' \<in> set options" and "prefix h h1'" and "?f x h1' = (y, h2')"
    for x x' h1' y h2'
    using IH[OF that(2) srel_mono[OF that(3,1)] repr_mono[OF that(3) r] that(4)] .
  from smap_refine[OF s, of h ?f "\<lambda>h y t. resrel h y (zparse U t p v)", OF _ _ sm]
    step resrel_mono
  have p1: "prefix h h1" and rl: "list_all2 (\<lambda>y t. resrel h1 y (zparse U t p v)) results options"
    by blast+
  from rl have "list_all2 (resrel h1) results (map (\<lambda>t. zparse U t p v) options)"
    by (simp add: list_all2_map2)
  from hhandleResults_refine[OF this, of p] p1 show ?thesis
    by (simp add: hres h')
qed

lemma hparse_refines:
  "srel h ht t \<Longrightarrow> repr h hv v \<Longrightarrow> hparse U ht p hv h = (hres, h') \<Longrightarrow>
   prefix h h' \<and> resrel h' hres (zparse U t p v)"
proof (induction t arbitrary: ht hv v h h' hres p)
  case (ZodString checks)
  then show ?case using hparse_leaf(1)[of h hv v U checks p hres h'] by simp
next
  case ZodDate
  then show ?case using hparse_leaf(2)[of h hv v U p hres h'] by simp
next
  case ZodBoolean
  then show ?case using hparse_leaf(3)[of h hv v U p hres h'] by simp
next
  case (ZodArray t)
  from ZodArray.prems(1) obtain ht' where ht: "ht = HZodArray ht'" and s: "srel h ht' t"
    by (cases ht) auto
  from hparse_Array_refine[OF ZodArray.IH s ZodArray.prems(2) ZodArray.prems(3)[unfolded ht]]
  show ?case .
next
  case (ZodObject shape)
  from ZodObject.prems(1) obtain hshape where ht: "ht = HZodObject hshape"
    and s: "list_all2 (\<lambda>hkt kt. fst hkt = fst kt \<and> srel h (snd hkt) (snd kt)) hshape shape"
    by (cases ht) auto
  have IH: "prefix h h' \<and> resrel h' hres (zparse U (snd kt) p v)"
    if "kt \<in> set shape" and "srel h ht (snd kt)" and "repr h hv v"
      and "hparse U ht p hv h = (hres, h')" for kt ht hv v h h' hres p
  proof -
    have "snd kt \<in> Basic_BNFs.snds kt" by (cases kt) simp
    from ZodObject.IH[OF that(1) this that(2,3,4)] show ?thesis .
  qed
  from hparse_Object_refine[OF IH s ZodObject.prems(2) ZodObject.prems(3)[unfolded ht]]
  show ?case .
next
  case (ZodOptional t)
  from ZodOptional.prems(1) obtain ht' where ht: "ht = HZodOptional ht'" and s: "srel h ht' t"
    by (cases ht) auto
  note pt = repr_ParsedType[OF ZodOptional.prems(2)]
  show ?case
  proof (cases "getParsedType v = T_undefined")
    case True
    with pt ZodOptional.prems(3) show ?thesis by (auto simp: ht resrel_def)
  next
    case False
    with pt ZodOptional.prems(3) have "hparse U ht' p hv h = (hres, h')" by (simp add: ht)
    from ZodOptional.IH[OF s ZodOptional.prems(2) this] False show ?thesis by simp
  qed
next
  case (ZodDefault t d)
  from ZodDefault.prems(1) obtain ht' d' where ht: "ht = HZodDefault ht' d'"
    and s: "srel h ht' t" and d: "repr h d' d"
    by (cases ht) auto
  note pt = repr_ParsedType[OF ZodDefault.prems(2)]
  show ?case
  proof (cases "getParsedType v = T_undefined")
    case True
    with pt ZodDefault.prems(3) have "hparse U ht' p d' h = (hres, h')" by (simp add: ht)
    from ZodDefault.IH[OF s d this] True show ?thesis by simp
  next
    case False
    with pt ZodDefault.prems(3) have "hparse U ht' p hv h = (hres, h')" by (simp add: ht)
    from ZodDefault.IH[OF s ZodDefault.prems(2) this] False show ?thesis by simp
  qed
next
  case (ZodUnion options)
  from ZodUnion.prems(1) obtain hoptions where ht: "ht = HZodUnion hoptions"
    and s: "list_all2 (srel h) hoptions options"
    by (cases ht) auto
  from hparse_Union_refine[OF ZodUnion.IH s ZodUnion.prems(2) ZodUnion.prems(3)[unfolded ht]]
  show ?case by simp
qed

lemma smap_all:
  assumes "\<And>x h1 y h2. x \<in> set xs \<Longrightarrow> prefix h h1 \<Longrightarrow> f x h1 = (y, h2) \<Longrightarrow>
             prefix h1 h2 \<and> B h2 y"
    and "\<And>h1 h2 y. prefix h1 h2 \<Longrightarrow> B h1 y \<Longrightarrow> B h2 y"
    and "smap f xs h = (ys, h')"
  shows "prefix h h' \<and> (\<forall>y \<in> set ys. B h' y)"
proof -
  have "list_all2 (=) xs xs" by (simp add: list.rel_eq)
  from smap_refine[OF this, of h f "\<lambda>h y x. B h y", OF _ _ assms(3)] assms(1,2)
  have "prefix h h' \<and> list_all2 (\<lambda>y x. B h' y) ys xs" by blast
  then show ?thesis by (auto simp: list_all2_conv_all_nth in_set_conv_nth)
qed

lemma hmergeArray_fresh:
  "hmergeArray d hrs acc h = (hr, h') \<Longrightarrow>
   (\<exists>xs. h' = h @ [xs]) \<and> ret_refs hr \<subseteq> {length h}"
  by (induction d hrs acc h rule: hmergeArray.induct) (auto split: if_splits)

lemma refs_update: "(\<Union>kv \<in> set (AList.update k v al). refs (snd kv)) \<subseteq> refs v \<union> (\<Union>kv \<in> set al. refs (snd kv))"
  by (induction al) auto

lemma refs_hassign:
  "(\<Union>kv \<in> set (hassign k v a al). refs (snd kv)) \<subseteq> refs v \<union> (\<Union>kv \<in> set al. refs (snd kv))"
  using refs_update[of k v al] by (auto simp: hassign_def)

lemma orefs_hassign: "orefs (hassign k v a al) \<subseteq> refs v \<union> orefs al"
  using refs_hassign[of k v a al] by (simp add: orefs_def)

lemma hmergeObjectSync_refs:
  "ret_refs (hmergeObjectSync d pairs acc) \<subseteq>
     (\<Union>x \<in> set pairs. ret_refs (fst (snd x))) \<union> orefs acc"
proof (induction d pairs acc rule: hmergeObjectSync.induct)
  case (1 dirty finalObject)
  then show ?case by (simp add: orefs_def)
next
  case (2 dirty key alwaysSet pairs finalObject)
  then show ?case by simp
next
  case (3 dirty key v alwaysSet pairs finalObject)
  define P where "P = (\<Union>x \<in> set pairs. ret_refs (fst (snd x)))"
  from 3 have "ret_refs (hmergeObjectSync True pairs (hassign key v alwaysSet finalObject))
      \<subseteq> P \<union> orefs (hassign key v alwaysSet finalObject)" by (simp add: P_def)
  also have "\<dots> \<subseteq> P \<union> (refs v \<union> orefs finalObject)"
    by (rule Un_mono[OF subset_refl orefs_hassign])
  finally show ?case by (simp add: P_def Un_ac)
next
  case (4 dirty key v alwaysSet pairs finalObject)
  define P where "P = (\<Union>x \<in> set pairs. ret_refs (fst (snd x)))"
  from 4 have "ret_refs (hmergeObjectSync dirty pairs (hassign key v alwaysSet finalObject))
      \<subseteq> P \<union> orefs (hassign key v alwaysSet finalObject)" by (simp add: P_def)
  also have "\<dots> \<subseteq> P \<union> (refs v \<union> orefs finalObject)"
    by (rule Un_mono[OF subset_refl orefs_hassign])
  finally show ?case by (simp add: P_def Un_ac)
qed

lemma hhandleResults_refs:
  "ret_refs (fst (hhandleResults p results)) \<subseteq> (\<Union>r \<in> set results. ret_refs (fst r))"
proof (cases "find h_is_valid results")
  case (Some r)
  from find_Some_D[OF this] have "r \<in> set results" by simp
  with Some show ?thesis by (auto simp: hhandleResults_def)
next
  case None
  show ?thesis
  proof (cases "find (\<lambda>r. h_is_dirty (fst r)) results")
    case (Some r)
    from find_Some_D[OF this] have "r \<in> set results" by simp
    with Some None show ?thesis by (auto simp: hhandleResults_def)
  next
    case None' : None
    with None show ?thesis by (simp add: hhandleResults_def)
  qed
qed

lemma fresh_mono: "prefix h1 h2 \<Longrightarrow> fresh h h1 y \<Longrightarrow> fresh h h2 y"
  by (auto simp: fresh_def prefix_def)

lemma fresh_base: "prefix h h1 \<Longrightarrow> fresh h1 h2 y \<Longrightarrow> fresh h h2 y"
  by (auto simp: fresh_def prefix_def)

lemma pairs_refs:
  "(\<Union>x \<in> set (map (\<lambda>(kt, r). (fst kt, fst r, F kt)) (zip shape results)). ret_refs (fst (snd x)))
     \<subseteq> (\<Union>r \<in> set results. ret_refs (fst r))"
  by (auto dest: set_zip_rightD)

lemma hparse_fresh:
  "hparse U ht p hv h = (hres, h') \<Longrightarrow> prefix h h' \<and> fresh h h' hres"
proof (induction ht arbitrary: p hv h hres h')
  case (HZodString checks)
  then show ?case by (cases hv) (auto simp: fresh_def Let_def split: if_splits)
next
  case HZodDate
  then show ?case by (cases hv) (auto simp: fresh_def)
next
  case HZodBoolean
  then show ?case by (cases hv) (auto simp: fresh_def)
next
  case (HZodArray t)
  show ?case
  proof (cases "\<exists>a. hv = HArr a")
    case True
    then obtain a where hv: "hv = HArr a" by blast
    let ?f = "\<lambda>ix. hparse U t (p @ [Idx (fst ix)]) (snd ix)"
    obtain results h1 where sm: "smap ?f (enumerate 0 (elems h a)) h = (results, h1)"
      by (cases "smap ?f (enumerate 0 (elems h a)) h")
    obtain hr h2 where m: "hmergeArray False (map fst results) [] h1 = (hr, h2)"
      by (cases "hmergeArray False (map fst results) [] h1")
    from HZodArray.prems sm m have hres: "hres = (hr, concat (map snd results))" and h': "h' = h2"
      by (simp_all add: hv)
    have "prefix h h1 \<and> (\<forall>y \<in> set results. True)"
      by (rule smap_all[of _ h ?f "\<lambda>h y. True", OF _ _ sm]) (use HZodArray.IH in blast)+
    then have p1: "prefix h h1" by simp
    from hmergeArray_fresh[OF m] obtain xs where h2: "h2 = h1 @ [xs]"
      and r: "ret_refs hr \<subseteq> {length h1}" by blast
    from p1 have "length h \<le> length h1" by (auto simp: prefix_def)
    with r h2 have "fresh h h2 (hr, concat (map snd results))" by (auto simp: fresh_def)
    moreover from p1 h2 have "prefix h h2" by (auto simp: prefix_def)
    ultimately show ?thesis by (simp add: hres h')
  next
    case False
    with HZodArray.prems show ?thesis by (cases hv) (auto simp: fresh_def)
  qed
next
  case (HZodObject shape)
  show ?case
  proof (cases "\<exists>kvs. hv = HObj kvs")
    case True
    then obtain kvs where hv: "hv = HObj kvs" by blast
    let ?f = "\<lambda>kt. hparse U (snd kt) (p @ [Key (fst kt)]) (hlookup kvs (fst kt))"
    obtain results h1 where sm: "smap ?f shape h = (results, h1)"
      by (cases "smap ?f shape h")
    let ?pairs = "map (\<lambda>(kt, r). (fst kt, fst r, map_of kvs (fst kt) \<noteq> None)) (zip shape results)"
    from HZodObject.prems sm have hres: "hres = (hmergeObjectSync False ?pairs [],
                 concat (map snd results))" and h': "h' = h1"
      by (simp_all add: hv)
    have step: "prefix h1' h2' \<and> fresh h h2' y"
      if "x \<in> set shape" and "prefix h h1'" and "?f x h1' = (y, h2')" for x h1' y h2'
    proof -
      have "snd x \<in> Basic_BNFs.snds x" by (cases x) simp
      from HZodObject.IH[OF that(1) this that(3)] fresh_base[OF that(2)] show ?thesis by blast
    qed
    have "prefix h h1 \<and> (\<forall>y \<in> set results. fresh h h1 y)"
      by (rule smap_all[of _ h ?f "fresh h", OF _ _ sm]) (use step fresh_mono in blast)+
    then have p1: "prefix h h1" and fr: "\<forall>y \<in> set results. fresh h h1 y" by simp_all
    from hmergeObjectSync_refs[of False ?pairs "[]"] pairs_refs[of "\<lambda>kt. map_of kvs (fst kt) \<noteq> None" shape results]
    have sub: "ret_refs (fst hres) \<subseteq> (\<Union>r \<in> set results. ret_refs (fst r))"
      by (simp add: orefs_def hres)
    from fr have "(\<Union>r \<in> set results. ret_refs (fst r)) \<subseteq> {length h ..< length h1}"
      unfolding fresh_def by (intro UN_least) simp
    from subset_trans[OF sub this] have "fresh h h1 hres" by (simp add: fresh_def)
    with p1 show ?thesis by (simp add: h')
  next
    case False
    with HZodObject.prems show ?thesis by (cases hv) (auto simp: fresh_def)
  qed
next
  case (HZodOptional t)
  then show ?case by (cases "hParsedType hv = T_undefined") (auto simp: fresh_def)
next
  case (HZodDefault t d)
  then show ?case by (cases "hParsedType hv = T_undefined") auto
next
  case (HZodUnion options)
  let ?f = "\<lambda>t. hparse U t p hv"
  obtain results h1 where sm: "smap ?f options h = (results, h1)"
    by (cases "smap ?f options h")
  from HZodUnion.prems sm have hres: "hres = hhandleResults p results" and h': "h' = h1" by simp_all
  have step: "prefix h1' h2' \<and> fresh h h2' y"
    if "x \<in> set options" and "prefix h h1'" and "?f x h1' = (y, h2')" for x h1' y h2'
    using HZodUnion.IH[OF that(1,3)] fresh_base[OF that(2)] by blast
  have "prefix h h1 \<and> (\<forall>y \<in> set results. fresh h h1 y)"
    by (rule smap_all[of _ h ?f "fresh h", OF _ _ sm]) (use step fresh_mono in blast)+
  then have p1: "prefix h h1" and fr: "\<forall>y \<in> set results. fresh h h1 y" by simp_all
  from fr have "(\<Union>r \<in> set results. ret_refs (fst r)) \<subseteq> {length h ..< length h1}"
    unfolding fresh_def by (intro UN_least) simp
  from subset_trans[OF hhandleResults_refs[of p results] this] have "fresh h h1 hres"
    by (simp add: fresh_def hres)
  with p1 show ?case by (simp add: h')
qed

lemma store_repr: "store v h = (hv, h') \<Longrightarrow> prefix h h' \<and> repr h' hv v"
proof (induction v arbitrary: h hv h')
  case (Arr vs)
  obtain hvs h1 where sm: "smap store vs h = (hvs, h1)" by (cases "smap store vs h")
  with Arr.prems have hv: "hv = HArr (length h1)" and h': "h' = h1 @ [hvs]" by simp_all
  have "list_all2 (=) vs vs" by (simp add: list.rel_eq)
  from smap_refine[OF this, of h store "\<lambda>h hv v. repr h hv v", OF _ _ sm]
  have p1: "prefix h h1" and l: "list_all2 (repr h1) hvs vs"
    using Arr.IH repr_mono by blast+
  have p2: "prefix h1 h'" by (simp add: h')
  from l have "list_all2 (repr h') hvs vs"
    by (rule list.rel_mono_strong) (rule repr_mono[OF p2])
  with p1 p2 show ?case by (auto simp: hv h' intro: prefix_order.order_trans)
next
  case (Obj kvs)
  let ?f = "\<lambda>kv. store (snd kv)"
  obtain hvs h1 where sm: "smap ?f kvs h = (hvs, h1)" by (cases "smap ?f kvs h")
  with Obj.prems have hv: "hv = HObj (zip (map fst kvs) hvs)" and h': "h' = h1" by simp_all
  have step: "prefix h1' h2' \<and> repr h2' y (snd x')"
    if "x = x'" and "x' \<in> set kvs" and "?f x h1' = (y, h2')" for x x' h1' y h2'
  proof -
    have "snd x' \<in> Basic_BNFs.snds x'" by (cases x') simp
    from Obj.IH[OF that(2) this] that(1,3) show ?thesis by simp
  qed
  have "list_all2 (=) kvs kvs" by (simp add: list.rel_eq)
  from smap_refine[OF this, of h ?f "\<lambda>h hv kv. repr h hv (snd kv)", OF _ _ sm]
  have p1: "prefix h h1" and l: "list_all2 (\<lambda>hv kv. repr h1 hv (snd kv)) hvs kvs"
    using step repr_mono by blast+
  from l have "list_all2 (\<lambda>hkv kv. fst hkv = fst kv \<and> repr h1 (snd hkv) (snd kv))
                 (zip (map fst kvs) hvs) kvs"
    by (induction hvs kvs rule: list_all2_induct) auto
  with p1 show ?case by (simp add: hv h')
qed auto

lemma load_srel: "load t h = (ht, h') \<Longrightarrow> prefix h h' \<and> srel h' ht t"
proof (induction t arbitrary: h ht h')
  case (ZodArray t)
  then show ?case by (auto split: prod.splits)
next
  case (ZodObject shape)
  let ?f = "\<lambda>kt. load (snd kt)"
  obtain hts h1 where sm: "smap ?f shape h = (hts, h1)" by (cases "smap ?f shape h")
  with ZodObject.prems have ht: "ht = HZodObject (zip (map fst shape) hts)" and h': "h' = h1"
    by simp_all
  have step: "prefix h1' h2' \<and> srel h2' y (snd x')"
    if "x = x'" and "x' \<in> set shape" and "?f x h1' = (y, h2')" for x x' h1' y h2'
  proof -
    have "snd x' \<in> Basic_BNFs.snds x'" by (cases x') simp
    from ZodObject.IH[OF that(2) this] that(1,3) show ?thesis by simp
  qed
  have "list_all2 (=) shape shape" by (simp add: list.rel_eq)
  from smap_refine[OF this, of h ?f "\<lambda>h ht kt. srel h ht (snd kt)", OF _ _ sm]
  have p1: "prefix h h1" and l: "list_all2 (\<lambda>ht kt. srel h1 ht (snd kt)) hts shape"
    using step srel_mono by blast+
  from l have "list_all2 (\<lambda>hkt kt. fst hkt = fst kt \<and> srel h1 (snd hkt) (snd kt))
                 (zip (map fst shape) hts) shape"
    by (induction hts shape rule: list_all2_induct) auto
  with p1 show ?case by (simp add: ht h')
next
  case (ZodOptional t)
  then show ?case by (auto split: prod.splits)
next
  case (ZodDefault t d)
  obtain ht1 h1 where l: "load t h = (ht1, h1)" by (cases "load t h")
  obtain d' h2 where s: "store d h1 = (d', h2)" by (cases "store d h1")
  from ZodDefault.prems l s have ht: "ht = HZodDefault ht1 d'" and h': "h' = h2" by simp_all
  from ZodDefault.IH[OF l] have p1: "prefix h h1" and sr: "srel h1 ht1 t" by simp_all
  from store_repr[OF s] have p2: "prefix h1 h2" and r: "repr h2 d' d" by simp_all
  from srel_mono[OF p2 sr] r p1 p2 show ?case
    by (auto simp: ht h' intro: prefix_order.order_trans)
next
  case (ZodUnion options)
  obtain hts h1 where sm: "smap load options h = (hts, h1)" by (cases "smap load options h")
  with ZodUnion.prems have ht: "ht = HZodUnion hts" and h': "h' = h1" by simp_all
  have "list_all2 (=) options options" by (simp add: list.rel_eq)
  from smap_refine[OF this, of h load "\<lambda>h ht t. srel h ht t", OF _ _ sm]
  have p1: "prefix h h1" and l: "list_all2 (srel h1) hts options"
    using ZodUnion.IH srel_mono by blast+
  with p1 show ?case by (simp add: ht h')
qed auto

lemma hvalidate_refines:
  assumes "srel h ht (schema c)" and "orel h hr r" and "hvalidate U ht hr h = (res, h')"
  shows "prefix h h' \<and>
         (case res of
            Inl is \<Rightarrow> validate U c r = Inl is
          | Inr w \<Rightarrow> \<exists>v. validate U c r = Inr v \<and> repr h' w v)"
proof -
  obtain hres where hp: "hparse U ht [] (HObj hr) h = (hres, h')"
    using assms(3) by (auto simp: hvalidate_def hsafeParse_def split: prod.splits hret.splits)
  from assms(2) have "repr h (HObj hr) (Obj r)" by (simp add: orel_def)
  from hparse_refines[OF assms(1) this hp]
  have p: "prefix h h'" and rr: "resrel h' hres (zparse U (schema c) [] (Obj r))" by simp_all
  obtain hret "is" where hres: "hres = (hret, is)" by (cases hres)
  obtain pret where z: "zparse U (schema c) [] (Obj r) = (pret, is)"
    using rr by (cases "zparse U (schema c) [] (Obj r)") (auto simp: resrel_def hres)
  from rr have rel: "rrel h' hret pret" by (simp add: resrel_def hres z)
  from assms(3) hp have res: "res = (case hret of HOK w \<Rightarrow> Inr w | _ \<Rightarrow> Inl is)"
    by (auto simp: hvalidate_def hsafeParse_def hres split: hret.splits)
  from rel res z p show ?thesis
    by (cases hret; cases pret) (auto simp: validate_def safeParse_def)
qed

lemma hvalidate_fresh:
  assumes "hvalidate U ht hr h = (Inr w, h')"
  shows "refs w \<subseteq> {length h ..< length h'}"
proof -
  from assms obtain "is" where "hparse U ht [] (HObj hr) h = ((HOK w, is), h')"
    by (auto simp: hvalidate_def hsafeParse_def split: prod.splits hret.splits)
  from hparse_fresh[OF this] show ?thesis by (simp add: fresh_def)
qed

lemma defaults_value:
  assumes "c = blog \<or> c = project"
    and "validate U c r = Inr w"
  shows "\<exists>out. w = Obj out \<and>
           (map_of r ''tags'' = None \<longrightarrow> map_of out ''tags'' = Some (Arr [])) \<and>
           (map_of r ''draft'' = None \<longrightarrow> map_of out ''draft'' = Some (Bool False))"
proof -
  from assms(1) have c: "c = blog \<or> c = project \<or> c = blog_earlier \<or> c = project_earlier"
    by blast
  note sh = shape_of_schema[OF c] and di = distinct_fields[OF c]
  have tags: "(''tags'', ZodDefault (ZodArray (ZodString [])) (Arr [])) \<in> set (shape_of (schema c))"
    using assms(1) by (auto simp: schemas)
  have draft: "(''draft'', ZodDefault ZodBoolean (Bool False)) \<in> set (shape_of (schema c))"
    using assms(1) by (auto simp: schemas)
  have np: "''tags'' \<noteq> ''__proto__''" "''draft'' \<noteq> ''__proto__''" by simp_all
  from output_keys[OF sh assms(2)] obtain out where w: "w = Obj out" by blast
  have a: "map_of out ''tags'' = Some (Arr [])" if "map_of r ''tags'' = None"
  proof -
    from that have "lookup r ''tags'' = Undefined" by (simp add: lookup.simps)
    from output_field_value[OF sh di assms(2) tags np(1) field_tags_default[OF this]] w
    show ?thesis by simp
  qed
  have b: "map_of out ''draft'' = Some (Bool False)" if "map_of r ''draft'' = None"
  proof -
    from that have "lookup r ''draft'' = Undefined" by (simp add: lookup.simps)
    from output_field_value[OF sh di assms(2) draft np(2) field_draft_default[OF this]] w
    show ?thesis by simp
  qed
  show ?thesis by (rule exI[of _ out]) (simp add: w a b)
qed

lemma defaults_fresh:
  assumes "c = blog \<or> c = project"
    and "srel h ht (schema c)" and "orel h hr r" and "map_of r ''tags'' = None"
    and "hvalidate U ht hr h = (Inr w, h')"
  shows "\<exists>out a. w = HObj out \<and> map_of out ''tags'' = Some (HArr a) \<and>
           elems h' a = [] \<and> length h \<le> a \<and> a < length h'"
proof -
  from hvalidate_refines[OF assms(2,3,5)] obtain v where v: "validate U c r = Inr v"
    and r: "repr h' w v" by auto
  from defaults_value[OF assms(1) v] assms(4) obtain pout where pout: "v = Obj pout"
    and t: "map_of pout ''tags'' = Some (Arr [])" by blast
  from r pout obtain out where w: "w = HObj out" and o: "orel h' out pout"
    by (cases w) (auto simp: orel_def)
  from orel_map_of[OF o, of "''tags''"] t obtain hv where m: "map_of out ''tags'' = Some hv"
    and rv: "repr h' hv (Arr [])"
    by (auto elim: option.rel_cases)
  from rv obtain a where hv: "hv = HArr a" and a: "a < length h'" and e: "h' ! a = []"
    by (cases hv) auto
  from m have "(''tags'', hv) \<in> set out" by (rule map_of_SomeD)
  then have "a \<in> refs w" unfolding w hv by force
  with hvalidate_fresh[OF assms(5)] have "length h \<le> a" by auto
  with w m hv a e show ?thesis by (simp add: elems_def)
qed

lemma load_blog:
  "load (schema blog) [] =
     (HZodObject [
        (''title'', HZodString []),
        (''description'', HZodOptional (HZodString [])),
        (''date'', HZodUnion [HZodString [], HZodDate]),
        (''tags'', HZodDefault (HZodArray (HZodString [])) (HArr 0)),
        (''project'', HZodOptional (HZodString [])),
        (''draft'', HZodDefault HZodBoolean (HBool False))], [[]])"
  by (simp add: schema_blog)

lemma defaults_not_shared:
  assumes "c = blog \<or> c = project"
    and "srel h ht (schema c)"
    and "orel h hr1 r1" and "map_of r1 ''tags'' = None"
    and "hvalidate U ht hr1 h = (Inr w1, h1)"
    and "orel h1 hr2 r2" and "map_of r2 ''tags'' = None"
    and "hvalidate U ht hr2 h1 = (Inr w2, h2)"
  shows "\<exists>o1 o2 a1 a2. w1 = HObj o1 \<and> w2 = HObj o2 \<and>
           map_of o1 ''tags'' = Some (HArr a1) \<and> map_of o2 ''tags'' = Some (HArr a2) \<and> a1 \<noteq> a2"
proof -
  from defaults_fresh[OF assms(1,2,3,4,5)] obtain o1 a1 where 1: "w1 = HObj o1"
    "map_of o1 ''tags'' = Some (HArr a1)" "a1 < length h1" by blast
  from hvalidate_refines[OF assms(2,3,5)] have "prefix h h1" by simp
  from defaults_fresh[OF assms(1) srel_mono[OF this assms(2)] assms(6,7,8)]
  obtain o2 a2 where 2: "w2 = HObj o2" "map_of o2 ''tags'' = Some (HArr a2)" "length h1 \<le> a2"
    by blast
  from 1(3) 2(3) have "a1 \<noteq> a2" by simp
  with 1 2 show ?thesis by blast
qed

section \<open>The claims\<close>

text \<open>
  Claim C1 (scenario A).  Under the blog schema the record
  \<^verbatim>\<open>{title: "Hello", date: "2026-01-15"}\<close> validates, and the normalized record is
  exactly \<^verbatim>\<open>{title: "Hello", date: "2026-01-15", tags: [], draft: false}\<close>: title and
  date unchanged, the defaults applied, and no \<^verbatim>\<open>description\<close> key (reading it gives
  \<open>undefined\<close>).
\<close>

theorem scenario_A:
  "validate U blog [(''title'', Str ''Hello''), (''date'', Str ''2026-01-15'')] =
     Inr (Obj [(''title'', Str ''Hello''), (''date'', Str ''2026-01-15''),
               (''tags'', Arr []), (''draft'', Bool False)])
   \<and> lookup [(''title'', Str ''Hello''), (''date'', Str ''2026-01-15''),
               (''tags'', Arr []), (''draft'', Bool False)] ''description'' = Undefined"
  by (simp add: validate_def schema_blog safeParse_def zparse_Obj zparse_Arr pairs_of_def
      field_def lookup.simps handleResults_def assign_def)

text \<open>
  Claim C2.  A metadata record that lacks the key \<^verbatim>\<open>title\<close> or the key \<^verbatim>\<open>date\<close>
  fails validation under the blog and under the project schema: no normalized record
  is produced, and the issues contain one for that key which reports a missing
  required field.
\<close>

theorem missing_required_field:
  assumes "k = ''title'' \<or> k = ''date''"
    and "map_of r k = None"
    and "c = blog \<or> c = project"
  shows "\<exists>is. validate U c r = Inl is \<and>
           (\<exists>i \<in> set is. path i = [Key k] \<and> classify i = MissingRequiredField)"
proof -
  from assms(2) have u: "lookup r k = Undefined" by (simp add: lookup.simps)
  obtain shape where sh: "schema c = ZodObject shape"
     and t: "(''title'', ZodString []) \<in> set shape"
     and d: "(''date'', ZodUnion [ZodString [], ZodDate]) \<in> set shape"
    using assms(3) by (auto simp: schemas)
  show ?thesis
  proof (cases "k = ''title''")
    case True
    from validate_field_fails[OF sh t, of U r] field_string_missing[OF u[unfolded True], of U]
    obtain "is" where "validate U c r = Inl is"
      and "invalid_type [Key ''title''] T_string T_undefined \<in> set is" by auto
    then show ?thesis unfolding True by (intro exI[of _ "is"] conjI bexI) simp_all
  next
    case False
    with assms(1) have k: "k = ''date''" by simp
    from validate_field_fails[OF sh d, of U r] field_date_missing[OF u[unfolded k], of U]
    obtain "is" where "validate U c r = Inl is"
      and "invalid_union [Key ''date'']
        [[invalid_type [Key ''date''] T_string T_undefined],
         [invalid_type [Key ''date''] T_date T_undefined]] \<in> set is" by auto
    then show ?thesis unfolding k by (intro exI[of _ "is"] conjI bexI) simp_all
  qed
qed

theorem missing_required_field_witness:
  "map_of [(''title'', Str ''Hello'')] ''date'' = None \<and>
   (\<exists>is. validate has_scheme project [(''title'', Str ''Hello'')] = Inl is \<and>
      (\<exists>i \<in> set is. path i = [Key ''date''] \<and> classify i = MissingRequiredField))"
  using missing_required_field[of "''date''" "[(''title'', Str ''Hello'')]" project has_scheme]
  by simp

text \<open>
  Claim C3.  Under the project schema, a record whose \<^verbatim>\<open>url\<close> or \<^verbatim>\<open>repo\<close> is a string
  that does not parse as an absolute URL fails validation, and the issues contain a
  malformed-URL issue whose path is that key.  Scenario B is the instance
  \<^verbatim>\<open>{title: "X", date: "2026-01-15", repo: "not-a-url"}\<close>, shown in the witness.
\<close>

theorem malformed_url:
  assumes "k = ''url'' \<or> k = ''repo''"
    and "map_of r k = Some (Str s)"
    and "\<not> U s"
  shows "\<exists>is. validate U project r = Inl is \<and>
           (\<exists>i \<in> set is. path i = [Key k] \<and> classify i = MalformedURL)"
proof -
  from assms(2) have v: "lookup r k = Str s" by (simp add: lookup.simps)
  have kt: "(k, ZodOptional (ZodString [Url])) \<in> set (shape_of (schema project))"
    using assms(1) by (auto simp: schema_project)
  have sh: "schema project = ZodObject (shape_of (schema project))"
    by (simp add: schema_project)
  from validate_field_fails[OF sh kt, of U r] field_url[OF v, of U] assms(3)
  obtain "is" where "validate U project r = Inl is"
    and "invalid_string [Key k] Url \<in> set is" by auto
  then show ?thesis by (intro exI[of _ "is"] conjI bexI) simp_all
qed

theorem malformed_url_witness:
  "map_of [(''title'', Str ''X''), (''date'', Str ''2026-01-15''), (''repo'', Str ''not-a-url'')]
      ''repo'' = Some (Str ''not-a-url'') \<and>
   \<not> has_scheme ''not-a-url'' \<and>
   validate has_scheme project
     [(''title'', Str ''X''), (''date'', Str ''2026-01-15''), (''repo'', Str ''not-a-url'')]
     = Inl [invalid_string [Key ''repo''] Url] \<and>
   (\<exists>is. validate has_scheme project
           [(''title'', Str ''X''), (''date'', Str ''2026-01-15''), (''repo'', Str ''not-a-url'')]
         = Inl is \<and>
      (\<exists>i \<in> set is. path i = [Key ''repo''] \<and> classify i = MalformedURL))"
proof -
  have v: "validate has_scheme project
     [(''title'', Str ''X''), (''date'', Str ''2026-01-15''), (''repo'', Str ''not-a-url'')]
     = Inl [invalid_string [Key ''repo''] Url]"
    by (simp add: eval_defs schema_project)
  from malformed_url[of "''repo''"
      "[(''title'', Str ''X''), (''date'', Str ''2026-01-15''), (''repo'', Str ''not-a-url'')]"
      "''not-a-url''" has_scheme] v
  show ?thesis by (simp add: is_alpha_def is_scheme_char_def)
qed

text \<open>
  Claim C4.  Defaults are applied: when validation under the blog or the project schema
  succeeds, a record that omits \<^verbatim>\<open>tags\<close> is normalized with \<^verbatim>\<open>tags\<close> equal to the empty
  sequence, and a record that omits \<^verbatim>\<open>draft\<close> with \<^verbatim>\<open>draft\<close> equal to \<open>false\<close>.
  The empty sequence is a fresh one per entry: over the heap, with the schema loaded
  in the heap \<open>h\<close> and the record read there, the \<^verbatim>\<open>tags\<close> of the normalized record is
  an empty array at an address that did not exist in \<open>h\<close>, so it is neither the
  array kept by \<^verbatim>\<open>.default([])\<close> nor an array of any record built before; and two
  entries validated one after the other get two different arrays.
\<close>

theorem defaults_applied:
  assumes "c = blog \<or> c = project"
  shows "(\<forall>w. validate U c r = Inr w \<longrightarrow>
            (\<exists>out. w = Obj out \<and>
               (map_of r ''tags'' = None \<longrightarrow> map_of out ''tags'' = Some (Arr [])) \<and>
               (map_of r ''draft'' = None \<longrightarrow> map_of out ''draft'' = Some (Bool False)))) \<and>
         (\<forall>h ht hr w h'.
            srel h ht (schema c) \<and> orel h hr r \<and> map_of r ''tags'' = None \<and>
            hvalidate U ht hr h = (Inr w, h') \<longrightarrow>
            (\<exists>out a. w = HObj out \<and> map_of out ''tags'' = Some (HArr a) \<and>
               elems h' a = [] \<and> length h \<le> a \<and> a < length h')) \<and>
         (\<forall>h ht hr r' hr' w h1 w' h2.
            srel h ht (schema c) \<and> orel h hr r \<and> map_of r ''tags'' = None \<and>
            hvalidate U ht hr h = (Inr w, h1) \<and>
            orel h1 hr' r' \<and> map_of r' ''tags'' = None \<and>
            hvalidate U ht hr' h1 = (Inr w', h2) \<longrightarrow>
            (\<exists>out out' a a'. w = HObj out \<and> w' = HObj out' \<and>
               map_of out ''tags'' = Some (HArr a) \<and> map_of out' ''tags'' = Some (HArr a') \<and>
               a \<noteq> a'))"
proof -
  have p1: "\<forall>w. validate U c r = Inr w \<longrightarrow>
            (\<exists>out. w = Obj out \<and>
               (map_of r ''tags'' = None \<longrightarrow> map_of out ''tags'' = Some (Arr [])) \<and>
               (map_of r ''draft'' = None \<longrightarrow> map_of out ''draft'' = Some (Bool False)))"
    by (intro allI impI) (rule defaults_value[OF assms])
  have p2: "\<forall>h ht hr w h'.
            srel h ht (schema c) \<and> orel h hr r \<and> map_of r ''tags'' = None \<and>
            hvalidate U ht hr h = (Inr w, h') \<longrightarrow>
            (\<exists>out a. w = HObj out \<and> map_of out ''tags'' = Some (HArr a) \<and>
               elems h' a = [] \<and> length h \<le> a \<and> a < length h')"
    by (intro allI impI, elim conjE) (rule defaults_fresh[OF assms])
  have p3: "\<forall>h ht hr r' hr' w h1 w' h2.
            srel h ht (schema c) \<and> orel h hr r \<and> map_of r ''tags'' = None \<and>
            hvalidate U ht hr h = (Inr w, h1) \<and>
            orel h1 hr' r' \<and> map_of r' ''tags'' = None \<and>
            hvalidate U ht hr' h1 = (Inr w', h2) \<longrightarrow>
            (\<exists>out out' a a'. w = HObj out \<and> w' = HObj out' \<and>
               map_of out ''tags'' = Some (HArr a) \<and> map_of out' ''tags'' = Some (HArr a') \<and>
               a \<noteq> a')"
    by (intro allI impI, elim conjE) (rule defaults_not_shared[OF assms])
  show ?thesis by (rule conjI[OF p1 conjI[OF p2 p3]])
qed

theorem defaults_applied_witness:
  "validate has_scheme blog [(''title'', Str ''Hello''), (''date'', Str ''2026-01-15'')] =
     Inr (Obj [(''title'', Str ''Hello''), (''date'', Str ''2026-01-15''),
               (''tags'', Arr []), (''draft'', Bool False)]) \<and>
   srel [[]] (fst (load (schema blog) [])) (schema blog) \<and>
   orel [[]] [(''title'', HStr ''Hello''), (''date'', HStr ''2026-01-15'')]
             [(''title'', Str ''Hello''), (''date'', Str ''2026-01-15'')] \<and>
   hvalidate has_scheme (fst (load (schema blog) []))
     [(''title'', HStr ''Hello''), (''date'', HStr ''2026-01-15'')] [[]] =
     (Inr (HObj [(''title'', HStr ''Hello''), (''date'', HStr ''2026-01-15''),
                 (''tags'', HArr 1), (''draft'', HBool False)]), [[], []]) \<and>
   hvalidate has_scheme (fst (load (schema blog) []))
     [(''title'', HStr ''Hello''), (''date'', HStr ''2026-01-15'')] [[], []] =
     (Inr (HObj [(''title'', HStr ''Hello''), (''date'', HStr ''2026-01-15''),
                 (''tags'', HArr 2), (''draft'', HBool False)]), [[], [], []]) \<and>
   elems [[], []] 1 = [] \<and> length [[]::hval list] \<le> 1"
proof -
  let ?r = "[(''title'', Str ''Hello''), (''date'', Str ''2026-01-15'')]"
  let ?hr = "[(''title'', HStr ''Hello''), (''date'', HStr ''2026-01-15'')]"
  let ?ht = "fst (load (schema blog) [])"
  have v: "validate has_scheme blog ?r =
     Inr (Obj [(''title'', Str ''Hello''), (''date'', Str ''2026-01-15''),
               (''tags'', Arr []), (''draft'', Bool False)])"
    by (simp add: eval_defs schema_blog)
  have s: "srel [[]] ?ht (schema blog)"
    by (simp add: load_blog schema_blog)
  have o: "orel [[]] ?hr ?r" by (simp add: orel_def)
  have h1: "hvalidate has_scheme ?ht ?hr [[]] =
     (Inr (HObj [(''title'', HStr ''Hello''), (''date'', HStr ''2026-01-15''),
                 (''tags'', HArr 1), (''draft'', HBool False)]), [[], []])"
    by (simp add: load_blog hvalidate_def hsafeParse_def hhandleResults_def hassign_def elems_def)
  have h2: "hvalidate has_scheme ?ht ?hr [[], []] =
     (Inr (HObj [(''title'', HStr ''Hello''), (''date'', HStr ''2026-01-15''),
                 (''tags'', HArr 2), (''draft'', HBool False)]), [[], [], []])"
    by (simp add: load_blog hvalidate_def hsafeParse_def hhandleResults_def hassign_def elems_def)
  have b: "blog = blog \<or> blog = project" by simp
  from defaults_applied[OF b, of has_scheme ?r, THEN conjunct2, THEN conjunct1,
      THEN spec, THEN spec, THEN spec, THEN spec, THEN spec, THEN mp, of "[[]]" ?ht ?hr _ "[[], []]"]
    v s o h1 h2
  show ?thesis by (simp add: elems_def)
qed

text \<open>
  Claim C5.  The \<^verbatim>\<open>date\<close> key is required and is accepted as a string or as a date
  value: for such a value validation reports no issue about \<^verbatim>\<open>date\<close> and a successful
  validation passes the value through; for any other value, or none, validation
  fails with an issue whose path is \<^verbatim>\<open>date\<close>.
\<close>

theorem date_string_or_date:
  assumes "c = blog \<or> c = project"
  shows "((\<exists>s. lookup r ''date'' = Str s) \<or> (\<exists>t. lookup r ''date'' = DateV t) \<longrightarrow>
            (\<forall>is. validate U c r = Inl is \<longrightarrow> (\<forall>i \<in> set is. \<not> about ''date'' i)) \<and>
            (\<forall>out. validate U c r = Inr (Obj out) \<longrightarrow>
               map_of out ''date'' = Some (lookup r ''date''))) \<and>
         (\<not> ((\<exists>s. lookup r ''date'' = Str s) \<or> (\<exists>t. lookup r ''date'' = DateV t)) \<longrightarrow>
            (\<exists>is. validate U c r = Inl is \<and> (\<exists>i \<in> set is. path i = [Key ''date''])))"
proof -
  from assms(1) have c: "c = blog \<or> c = project \<or> c = blog_earlier \<or> c = project_earlier"
    by blast
  note sh = shape_of_schema[OF c] and di = distinct_fields[OF c]
  let ?t = "ZodUnion [ZodString [], ZodDate]"
  have date: "(''date'', ?t) \<in> set (shape_of (schema c))"
    using assms(1) by (auto simp: schemas)
  have np: "''date'' \<noteq> ''__proto__''" by simp
  have accepted: "(\<forall>is. validate U c r = Inl is \<longrightarrow> (\<forall>i \<in> set is. \<not> about ''date'' i)) \<and>
      (\<forall>out. validate U c r = Inr (Obj out) \<longrightarrow> map_of out ''date'' = Some (lookup r ''date''))"
    if ok: "(\<exists>s. lookup r ''date'' = Str s) \<or> (\<exists>t. lookup r ''date'' = DateV t)"
  proof -
    from ok have f: "field U [] r (''date'', ?t) = (OK (lookup r ''date''), [])"
      using field_date_ok[of r "''date''" _ _ U] by blast
    from ok have nu: "lookup r ''date'' \<noteq> Undefined" by auto
    from accepted_field[OF sh di date np f nu] show ?thesis .
  qed
  have rejected: "\<exists>is. validate U c r = Inl is \<and> (\<exists>i \<in> set is. path i = [Key ''date''])"
    if no: "\<not> ((\<exists>s. lookup r ''date'' = Str s) \<or> (\<exists>t. lookup r ''date'' = DateV t))"
  proof -
    from no have "\<forall>s. lookup r ''date'' \<noteq> Str s" and "\<forall>t. lookup r ''date'' \<noteq> DateV t"
      by auto
    note f = field_date_other[OF this, of U]
    from validate_field_fails[OF sh date, of U r] f
    obtain "is" where "validate U c r = Inl is"
      and "invalid_union [Key ''date'']
        [[invalid_type [Key ''date''] T_string (getParsedType (lookup r ''date''))],
         [invalid_type [Key ''date''] T_date (getParsedType (lookup r ''date''))]] \<in> set is"
      by auto
    then show ?thesis by (intro exI[of _ "is"] conjI bexI) simp_all
  qed
  show ?thesis
    by (rule conjI) (rule impI, erule accepted, rule impI, erule rejected)
qed

theorem date_string_or_date_witness:
  "lookup [(''title'', Str ''Hello''), (''date'', DateV 1768435200000)] ''date'' = DateV 1768435200000 \<and>
   validate has_scheme blog [(''title'', Str ''Hello''), (''date'', DateV 1768435200000)] =
     Inr (Obj [(''title'', Str ''Hello''), (''date'', DateV 1768435200000),
               (''tags'', Arr []), (''draft'', Bool False)]) \<and>
   map_of [(''title'', Str ''Hello''), (''date'', DateV 1768435200000),
           (''tags'', Arr []), (''draft'', Bool False)] ''date'' = Some (DateV 1768435200000) \<and>
   lookup [(''title'', Str ''Hello''), (''date'', Num 20260115)] ''date'' = Num 20260115 \<and>
   (\<exists>is. validate has_scheme blog [(''title'', Str ''Hello''), (''date'', Num 20260115)] = Inl is \<and>
      (\<exists>i \<in> set is. path i = [Key ''date'']))"
proof -
  have v: "validate has_scheme blog [(''title'', Str ''Hello''), (''date'', DateV 1768435200000)] =
     Inr (Obj [(''title'', Str ''Hello''), (''date'', DateV 1768435200000),
               (''tags'', Arr []), (''draft'', Bool False)])"
    by (simp add: validate_def schema_blog safeParse_def zparse_Obj zparse_Arr pairs_of_def
      field_def lookup.simps handleResults_def assign_def)
  have b: "blog = blog \<or> blog = project" by simp
  from date_string_or_date[OF b, of "[(''title'', Str ''Hello''), (''date'', DateV 1768435200000)]" has_scheme]
       date_string_or_date[OF b, of "[(''title'', Str ''Hello''), (''date'', Num 20260115)]" has_scheme]
  show ?thesis by (simp add: v lookup.simps)
qed

text \<open>
  Claim C7.  Unknown keys never cause a validation error: a record that validates still
  validates, with the same normalized record, after any keys that the schema does not
  declare are added to it.
\<close>

theorem extra_keys_ignored:
  assumes "c = blog \<or> c = project"
    and "validate U c r = Inr w"
    and "\<forall>k \<in> fst ` set extra. k \<notin> set (declared_keys c)"
  shows "validate U c (r @ extra) = Inr w \<and> validate U c (extra @ r) = Inr w"
proof -
  from assms(1) have c: "c = blog \<or> c = project \<or> c = blog_earlier \<or> c = project_earlier"
    by blast
  note sh = shape_of_schema[OF c]
  have none: "map_of extra k = None" if "k \<in> set (declared_keys c)" for k
    using assms(3) that by (auto simp: map_of_eq_None_iff)
  have "\<forall>k \<in> set (declared_keys c). map_of (r @ extra) k = map_of r k"
    by (auto simp: map_add_def none split: option.splits)
  moreover have "\<forall>k \<in> set (declared_keys c). map_of (extra @ r) k = map_of r k"
    by (auto simp: map_add_def none split: option.splits)
  ultimately show ?thesis
    using validate_agree[OF sh, of _ r U] assms(2) by simp
qed

theorem extra_keys_ignored_witness:
  "validate has_scheme blog [(''title'', Str ''Hello''), (''date'', Str ''2026-01-15'')] =
     Inr (Obj [(''title'', Str ''Hello''), (''date'', Str ''2026-01-15''),
               (''tags'', Arr []), (''draft'', Bool False)]) \<and>
   validate has_scheme blog
     ([(''title'', Str ''Hello''), (''date'', Str ''2026-01-15'')] @
      [(''author'', Str ''me''), (''weight'', Num 3)]) =
     Inr (Obj [(''title'', Str ''Hello''), (''date'', Str ''2026-01-15''),
               (''tags'', Arr []), (''draft'', Bool False)])"
proof -
  have v: "validate has_scheme blog [(''title'', Str ''Hello''), (''date'', Str ''2026-01-15'')] =
     Inr (Obj [(''title'', Str ''Hello''), (''date'', Str ''2026-01-15''),
               (''tags'', Arr []), (''draft'', Bool False)])"
    by (simp add: validate_def schema_blog safeParse_def zparse_Obj zparse_Arr pairs_of_def
      field_def lookup.simps handleResults_def assign_def)
  have b: "blog = blog \<or> blog = project" by simp
  have e: "\<forall>k \<in> fst ` set [(''author'', Str ''me''), (''weight'', Num 3)]. k \<notin> set (declared_keys blog)"
    by (simp add: declared_keys_def schema_blog)
  from extra_keys_ignored[OF b v e] v show ?thesis by simp
qed

text \<open>
  Claim C6.  Validation is idempotent: when a record validates under the blog or the
  project schema, the normalized record (defaults now present) validates again, and
  the result is that same normalized record.
\<close>

theorem validate_idempotent:
  assumes "c = blog \<or> c = project"
    and "validate U c r = Inr w"
  shows "\<exists>out. w = Obj out \<and> validate U c out = Inr w"
proof -
  from assms(1) have c: "c = blog \<or> c = project \<or> c = blog_earlier \<or> c = project_earlier"
    by blast
  from output_keys[OF shape_of_schema[OF c] assms(2)] obtain out where w: "w = Obj out"
    by blast
  from assms(2) have "fst (zparse U (schema c) [] (Obj r)) = OK w"
    by (simp add: validate_def safeParse_Inr_iff)
  from stable_idem[OF stable_schemas[OF c] this] have "validate U c out = Inr w"
    by (simp add: validate_def safeParse_Inr_iff w)
  with w show ?thesis by blast
qed

theorem validate_idempotent_witness:
  "validate has_scheme project
     [(''title'', Str ''X''), (''date'', DateV 0), (''repo'', Str ''https://github.com/andarms/arpg'')] =
   Inr (Obj [(''title'', Str ''X''), (''date'', DateV 0),
             (''repo'', Str ''https://github.com/andarms/arpg''),
             (''tags'', Arr []), (''draft'', Bool False)]) \<and>
   validate has_scheme project
     [(''title'', Str ''X''), (''date'', DateV 0),
      (''repo'', Str ''https://github.com/andarms/arpg''),
      (''tags'', Arr []), (''draft'', Bool False)] =
   Inr (Obj [(''title'', Str ''X''), (''date'', DateV 0),
             (''repo'', Str ''https://github.com/andarms/arpg''),
             (''tags'', Arr []), (''draft'', Bool False)])"
proof -
  have v: "validate has_scheme project
     [(''title'', Str ''X''), (''date'', DateV 0), (''repo'', Str ''https://github.com/andarms/arpg'')] =
   Inr (Obj [(''title'', Str ''X''), (''date'', DateV 0),
             (''repo'', Str ''https://github.com/andarms/arpg''),
             (''tags'', Arr []), (''draft'', Bool False)])"
    by (simp add: validate_def schema_project safeParse_def zparse_Obj zparse_Arr pairs_of_def
      field_def lookup.simps handleResults_def assign_def is_alpha_def is_scheme_char_def)
  have p: "project = blog \<or> project = project" by simp
  from validate_idempotent[OF p v] v show ?thesis by simp
qed

text \<open>
  Claim C8.  A query with a predicate returns exactly the entries of the collection that
  satisfy the predicate, in their original order: the result is a subsequence of the
  collection, and an entry occurs in it as often as in the collection when it
  satisfies the predicate and not at all otherwise.  Scenario C: over five normalized
  blog entries of which two have \<^verbatim>\<open>draft: true\<close>, the query \<^verbatim>\<open>draft == false\<close> returns
  three entries, in order, none of them a draft.
\<close>

theorem query_filters_in_order:
  "subseq (query st name (Some f)) (getAll st name) \<and>
   (\<forall>e. count_list (query st name (Some f)) e =
          (if f e then count_list (getAll st name) e else 0)) \<and>
   ((\<forall>e \<in> set (getAll st ''blog''). \<exists>r. validate U blog r = Inr (metadata e)) \<and>
    length (getAll st ''blog'') = 5 \<and>
    length (filter draft_true (getAll st ''blog'')) = 2 \<longrightarrow>
      length (query st ''blog'' (Some not_draft)) = 3 \<and>
      subseq (query st ''blog'' (Some not_draft)) (getAll st ''blog'') \<and>
      (\<forall>e \<in> set (query st ''blog'' (Some not_draft)). \<not> draft_true e))"
proof -
  have a: "subseq (query st name (Some f)) (getAll st name)" for name f
    by (simp add: query_def)
  have b: "\<forall>e. count_list (query st name (Some f)) e =
          (if f e then count_list (getAll st name) e else 0)"
    by (simp add: query_def count_list_filter)
  have c: "length (query st ''blog'' (Some not_draft)) = 3 \<and>
      subseq (query st ''blog'' (Some not_draft)) (getAll st ''blog'') \<and>
      (\<forall>e \<in> set (query st ''blog'' (Some not_draft)). \<not> draft_true e)"
    if n: "\<forall>e \<in> set (getAll st ''blog''). \<exists>r. validate U blog r = Inr (metadata e)"
      and five: "length (getAll st ''blog'') = 5"
      and two: "length (filter draft_true (getAll st ''blog'')) = 2"
  proof -
    let ?all = "getAll st ''blog''"
    have eq: "filter not_draft ?all = filter (\<lambda>e. \<not> draft_true e) ?all"
      by (rule filter_cong[OF refl]) (use n normalized_not_draft in blast)
    have "length (filter draft_true ?all) + length (filter (\<lambda>e. \<not> draft_true e) ?all) = length ?all"
      by (rule sum_length_filter_compl)
    with five two have "length (filter (\<lambda>e. \<not> draft_true e) ?all) = 3" by simp
    with eq have "length (query st ''blog'' (Some not_draft)) = 3" by (simp add: query_def)
    moreover have "\<forall>e \<in> set (query st ''blog'' (Some not_draft)). \<not> draft_true e"
      by (simp add: query_def eq)
    ultimately show ?thesis using a by simp
  qed
  show ?thesis
    by (rule conjI[OF a conjI[OF b]]) (rule impI, elim conjE, rule c)
qed

theorem query_filters_in_order_witness:
  "length (getAll example_store ''blog'') = 5 \<and>
   length (filter draft_true (getAll example_store ''blog'')) = 2 \<and>
   length (query example_store ''blog'' (Some not_draft)) = 3 \<and>
   query example_store ''blog'' (Some not_draft) = [post ''a'' False, post ''c'' False, post ''e'' False]"
proof -
  have n: "\<forall>e \<in> set (getAll example_store ''blog''). \<exists>r. validate has_scheme blog r = Inr (metadata e)"
    by (simp add: getAll_def example_store_def example_normalized)
  have five: "length (getAll example_store ''blog'') = 5"
    by (simp add: getAll_def example_store_def)
  have two: "length (filter draft_true (getAll example_store ''blog'')) = 2"
    by (simp add: getAll_def example_store_def draft_true_def post_def lookup.simps)
  have q: "query example_store ''blog'' (Some not_draft) = [post ''a'' False, post ''c'' False, post ''e'' False]"
    by (simp add: query_def getAll_def example_store_def not_draft_def post_def lookup.simps)
  from query_filters_in_order[of example_store "''blog''" not_draft has_scheme] n five two q
  show ?thesis by simp
qed

text \<open>
  Claim C9, as stated, fails: the earlier blog schema accepts a record whose
  \<^verbatim>\<open>project\<close> key holds something that is not a string (here \<open>null\<close>, what an empty
  \<^verbatim>\<open>project:\<close> line of the metadata block yields), because it does not declare the
  key and drops it; the later schema rejects the record.
\<close>

theorem later_rejects_counterexample:
  "validate has_scheme blog_earlier
     [(''title'', Str ''Hello''), (''date'', Str ''2026-01-15''), (''project'', Null)] =
     Inr (Obj [(''title'', Str ''Hello''), (''date'', Str ''2026-01-15''),
               (''tags'', Arr []), (''draft'', Bool False)]) \<and>
   validate has_scheme blog
     [(''title'', Str ''Hello''), (''date'', Str ''2026-01-15''), (''project'', Null)] =
     Inl [invalid_type [Key ''project''] T_string T_null]"
  by (simp add: eval_defs schema_blog schema_blog_earlier)

text \<open>
  Claim C9, amended.  For the blog schemas with the key \<^verbatim>\<open>project\<close>, and for the project
  schemas with the key \<^verbatim>\<open>thumbnail\<close>: a record accepted by the earlier schema whose
  value for the new key is absent (or \<open>undefined\<close>) or a string is accepted by the later
  schema, every key of the earlier schema is normalized identically, and the new key
  is passed through; conversely every record accepted by the later schema is accepted
  by the earlier one, with the same values for the earlier schema's keys.
\<close>

theorem later_refines_earlier:
  assumes "(e, l, k) = (blog_earlier, blog, ''project'') \<or>
           (e, l, k) = (project_earlier, project, ''thumbnail'')"
  shows "(lookup r k = Undefined \<or> (\<exists>s. lookup r k = Str s) \<longrightarrow>
            (\<forall>we. validate U e r = Inr we \<longrightarrow>
               (\<exists>oe ol. we = Obj oe \<and> validate U l r = Inr (Obj ol) \<and>
                  (\<forall>f \<in> set (declared_keys e). map_of ol f = map_of oe f) \<and>
                  map_of ol k = map_of r k))) \<and>
         (\<forall>wl. validate U l r = Inr wl \<longrightarrow>
            (\<exists>oe ol. wl = Obj ol \<and> validate U e r = Inr (Obj oe) \<and>
               (\<forall>f \<in> set (declared_keys e). map_of oe f = map_of ol f)))"
proof -
  from assms have ce: "e = blog \<or> e = project \<or> e = blog_earlier \<or> e = project_earlier"
    and cl: "l = blog \<or> l = project \<or> l = blog_earlier \<or> l = project_earlier"
    by auto
  note she = shape_of_schema[OF ce] and shl = shape_of_schema[OF cl]
    and die = distinct_fields[OF ce] and dil = distinct_fields[OF cl]
  note sh = later_shapes[OF assms]
  let ?t = "ZodOptional (ZodString [])"
  have kt: "(k, ?t) \<in> set (shape_of (schema l))" using sh(1) by simp
  have sub: "set (shape_of (schema e)) \<subseteq> set (shape_of (schema l))" using sh(1) by auto
  have shared: "\<forall>f \<in> set (declared_keys e). map_of ol f = map_of oe f"
    if "validate U e r = Inr (Obj oe)" and "validate U l r = Inr (Obj ol)" for oe ol
  proof
    fix f assume f: "f \<in> set (declared_keys e)"
    then obtain t where t: "(f, t) \<in> set (shape_of (schema e))"
      by (auto simp: declared_keys_def)
    with sub have t': "(f, t) \<in> set (shape_of (schema l))" by blast
    from f sh(4) have "f \<noteq> ''__proto__''" by metis
    from shared_field[OF shl dil she die that(2,1) t' t this]
    show "map_of ol f = map_of oe f" .
  qed
  have forward: "\<exists>oe ol. we = Obj oe \<and> validate U l r = Inr (Obj ol) \<and>
                  (\<forall>f \<in> set (declared_keys e). map_of ol f = map_of oe f) \<and>
                  map_of ol k = map_of r k"
    if str: "lookup r k = Undefined \<or> (\<exists>s. lookup r k = Str s)"
      and ok: "validate U e r = Inr we" for we
  proof -
    from output_keys[OF she ok] obtain oe where we: "we = Obj oe" by blast
    from str have f: "field U [] r (k, ?t) = (OK (lookup r k), [])"
      using field_optional_string[of r k _ U] by blast
    from ok have "\<forall>kt \<in> set (shape_of (schema e)). \<exists>v. fst (field U [] r kt) = OK v"
      by (simp add: validate_Inr_iff[OF she])
    with f have "\<forall>kt \<in> set (shape_of (schema l)). \<exists>v. fst (field U [] r kt) = OK v"
      unfolding sh(1) by simp
    then obtain ol where ol: "validate U l r = Inr (Obj ol)"
      by (simp add: validate_Inr_iff[OF shl])
    from output_field[OF shl dil ol kt sh(3)] f
    have "map_of ol k = (if lookup r k \<noteq> Undefined \<or> map_of r k \<noteq> None then Some (lookup r k) else None)"
      by simp
    then have "map_of ol k = map_of r k"
      by (cases "map_of r k") (auto simp: lookup.simps)
    with we ol shared[OF ok[unfolded we] ol] show ?thesis by blast
  qed
  have backward: "\<exists>oe ol. wl = Obj ol \<and> validate U e r = Inr (Obj oe) \<and>
               (\<forall>f \<in> set (declared_keys e). map_of oe f = map_of ol f)"
    if ok: "validate U l r = Inr wl" for wl
  proof -
    from output_keys[OF shl ok] obtain ol where wl: "wl = Obj ol" by blast
    from sub_shape_accepts[OF shl she sub ok] obtain oe where oe: "validate U e r = Inr (Obj oe)"
      by blast
    from shared[OF oe ok[unfolded wl]] wl oe show ?thesis by auto
  qed
  show ?thesis
    by (intro conjI impI allI) (erule (1) forward, erule backward)
qed

theorem later_refines_earlier_witness:
  "lookup [(''title'', Str ''Building My GOM (Game Object Model) System''),
           (''date'', DateV 1768435200000),
           (''project'', Str ''game-engine''),
           (''tags'', Arr [Str ''gamedev'', Str ''csharp'', Str ''raylib'']),
           (''draft'', Bool False)] ''project'' = Str ''game-engine'' \<and>
   validate has_scheme blog_earlier
     [(''title'', Str ''Building My GOM (Game Object Model) System''),
      (''date'', DateV 1768435200000),
      (''project'', Str ''game-engine''),
      (''tags'', Arr [Str ''gamedev'', Str ''csharp'', Str ''raylib'']),
      (''draft'', Bool False)] =
     Inr (Obj [(''title'', Str ''Building My GOM (Game Object Model) System''),
               (''date'', DateV 1768435200000),
               (''tags'', Arr [Str ''gamedev'', Str ''csharp'', Str ''raylib'']),
               (''draft'', Bool False)]) \<and>
   (\<exists>ol. validate has_scheme blog
     [(''title'', Str ''Building My GOM (Game Object Model) System''),
      (''date'', DateV 1768435200000),
      (''project'', Str ''game-engine''),
      (''tags'', Arr [Str ''gamedev'', Str ''csharp'', Str ''raylib'']),
      (''draft'', Bool False)] = Inr (Obj ol) \<and>
      map_of ol ''title'' = Some (Str ''Building My GOM (Game Object Model) System'') \<and>
      map_of ol ''tags'' = Some (Arr [Str ''gamedev'', Str ''csharp'', Str ''raylib'']) \<and>
      map_of ol ''project'' = Some (Str ''game-engine''))"
proof -
  let ?r = "[(''title'', Str ''Building My GOM (Game Object Model) System''),
      (''date'', DateV 1768435200000),
      (''project'', Str ''game-engine''),
      (''tags'', Arr [Str ''gamedev'', Str ''csharp'', Str ''raylib'']),
      (''draft'', Bool False)]"
  have v: "validate has_scheme blog_earlier ?r =
     Inr (Obj [(''title'', Str ''Building My GOM (Game Object Model) System''),
               (''date'', DateV 1768435200000),
               (''tags'', Arr [Str ''gamedev'', Str ''csharp'', Str ''raylib'']),
               (''draft'', Bool False)])"
    by (simp add: eval_defs schema_blog_earlier)
  have b: "(blog_earlier, blog, ''project'') = (blog_earlier, blog, ''project'') \<or>
           (blog_earlier, blog, ''project'') = (project_earlier, project, ''thumbnail'')"
    by simp
  have l: "lookup ?r ''project'' = Str ''game-engine''" by (simp add: lookup.simps)
  from later_refines_earlier[OF b, of ?r has_scheme] v l
  show ?thesis by (auto simp: declared_keys_def schema_blog_earlier)
qed

text \<open>
  Claim C10.  The normalized record has only keys that the schema declares, so unknown
  keys of the input are dropped; and the \<^verbatim>\<open>project\<close> key of a blog entry and the
  \<^verbatim>\<open>thumbnail\<close> key of a project accept any string whatsoever: with a string there,
  validation reports no issue about the key and passes the string through, and a
  record with a title, a date and any such string validates.
\<close>

theorem only_declared_fields:
  assumes "c = blog \<or> c = project"
  shows "(\<forall>w. validate U c r = Inr w \<longrightarrow>
            (\<exists>out. w = Obj out \<and> fst ` set out \<subseteq> set (declared_keys c))) \<and>
         (\<forall>s. map_of r ''project'' = Some (Str s) \<longrightarrow>
            (\<forall>is. validate U blog r = Inl is \<longrightarrow> (\<forall>i \<in> set is. \<not> about ''project'' i)) \<and>
            (\<forall>out. validate U blog r = Inr (Obj out) \<longrightarrow> map_of out ''project'' = Some (Str s))) \<and>
         (\<forall>s. map_of r ''thumbnail'' = Some (Str s) \<longrightarrow>
            (\<forall>is. validate U project r = Inl is \<longrightarrow> (\<forall>i \<in> set is. \<not> about ''thumbnail'' i)) \<and>
            (\<forall>out. validate U project r = Inr (Obj out) \<longrightarrow>
               map_of out ''thumbnail'' = Some (Str s))) \<and>
         (\<forall>s. validate U blog
                 [(''title'', Str ''T''), (''date'', Str ''2026-01-15''), (''project'', Str s)] =
               Inr (Obj [(''title'', Str ''T''), (''date'', Str ''2026-01-15''),
                         (''tags'', Arr []), (''project'', Str s), (''draft'', Bool False)])) \<and>
         (\<forall>s. validate U project
                 [(''title'', Str ''T''), (''date'', Str ''2026-01-15''), (''thumbnail'', Str s)] =
               Inr (Obj [(''title'', Str ''T''), (''date'', Str ''2026-01-15''),
                         (''thumbnail'', Str s), (''tags'', Arr []), (''draft'', Bool False)]))"
proof -
  from assms have c: "c = blog \<or> c = project \<or> c = blog_earlier \<or> c = project_earlier"
    by blast
  have b: "blog = blog \<or> blog = project \<or> blog = blog_earlier \<or> blog = project_earlier"
    and p: "project = blog \<or> project = project \<or> project = blog_earlier \<or> project = project_earlier"
    by simp_all
  have mb: "(''project'', ZodOptional (ZodString [])) \<in> set (shape_of (schema blog))"
    by (simp add: schema_blog)
  have mp: "(''thumbnail'', ZodOptional (ZodString [])) \<in> set (shape_of (schema project))"
    by (simp add: schema_project)
  have p1: "\<forall>w. validate U c r = Inr w \<longrightarrow>
            (\<exists>out. w = Obj out \<and> fst ` set out \<subseteq> set (declared_keys c))"
    by (intro allI impI) (rule declared_only[OF c])
  have p2: "\<forall>s. map_of r ''project'' = Some (Str s) \<longrightarrow>
            (\<forall>is. validate U blog r = Inl is \<longrightarrow> (\<forall>i \<in> set is. \<not> about ''project'' i)) \<and>
            (\<forall>out. validate U blog r = Inr (Obj out) \<longrightarrow> map_of out ''project'' = Some (Str s))"
    by (intro allI impI) (rule any_string_accepted[OF b mb])
  have p3: "\<forall>s. map_of r ''thumbnail'' = Some (Str s) \<longrightarrow>
            (\<forall>is. validate U project r = Inl is \<longrightarrow> (\<forall>i \<in> set is. \<not> about ''thumbnail'' i)) \<and>
            (\<forall>out. validate U project r = Inr (Obj out) \<longrightarrow>
               map_of out ''thumbnail'' = Some (Str s))"
    by (intro allI impI) (rule any_string_accepted[OF p mp])
  have p4: "\<forall>s. validate U blog
                 [(''title'', Str ''T''), (''date'', Str ''2026-01-15''), (''project'', Str s)] =
               Inr (Obj [(''title'', Str ''T''), (''date'', Str ''2026-01-15''),
                         (''tags'', Arr []), (''project'', Str s), (''draft'', Bool False)])"
    by (intro allI) (rule blog_project_any_string)
  have p5: "\<forall>s. validate U project
                 [(''title'', Str ''T''), (''date'', Str ''2026-01-15''), (''thumbnail'', Str s)] =
               Inr (Obj [(''title'', Str ''T''), (''date'', Str ''2026-01-15''),
                         (''thumbnail'', Str s), (''tags'', Arr []), (''draft'', Bool False)])"
    by (intro allI) (rule project_thumbnail_any_string)
  show ?thesis
    by (rule conjI[OF p1 conjI[OF p2 conjI[OF p3 conjI[OF p4 p5]]]])
qed

theorem only_declared_fields_witness:
  "map_of [(''title'', Str ''Hello''), (''date'', Str ''2026-01-15''),
           (''project'', Str ''no-such-project''), (''layout'', Str ''post'')] ''project''
     = Some (Str ''no-such-project'') \<and>
   validate has_scheme blog
     [(''title'', Str ''Hello''), (''date'', Str ''2026-01-15''),
      (''project'', Str ''no-such-project''), (''layout'', Str ''post'')] =
     Inr (Obj [(''title'', Str ''Hello''), (''date'', Str ''2026-01-15''), (''tags'', Arr []),
               (''project'', Str ''no-such-project''), (''draft'', Bool False)]) \<and>
   fst ` set [(''title'', Str ''Hello''), (''date'', Str ''2026-01-15''), (''tags'', Arr []),
              (''project'', Str ''no-such-project''), (''draft'', Bool False)]
     \<subseteq> set (declared_keys blog) \<and>
   map_of [(''title'', Str ''Hello''), (''date'', Str ''2026-01-15''), (''tags'', Arr []),
           (''project'', Str ''no-such-project''), (''draft'', Bool False)] ''layout'' = None"
proof -
  let ?r = "[(''title'', Str ''Hello''), (''date'', Str ''2026-01-15''),
      (''project'', Str ''no-such-project''), (''layout'', Str ''post'')]"
  have v: "validate has_scheme blog ?r =
     Inr (Obj [(''title'', Str ''Hello''), (''date'', Str ''2026-01-15''), (''tags'', Arr []),
               (''project'', Str ''no-such-project''), (''draft'', Bool False)])"
    by (simp add: eval_defs schema_blog)
  have b: "blog = blog \<or> blog = project" by simp
  from only_declared_fields[OF b, of has_scheme ?r, THEN conjunct1] v
  show ?thesis by simp
qed

end
